theory Spec2Isabelle
  imports Complex_Main "HOL-Library.Multiset" "HOL-Library.Sublist" "HOL-Library.Signed_Division"
    "HOL-Library.Log_Nat"
begin

section \<open>Machine integers\<close>

text \<open>
  Go's \<^verbatim>\<open>int\<close> is a 64-bit two's-complement integer on the platforms the server
  is built for.  Values are modelled as HOL integers and every addition,
  subtraction and multiplication of the source is followed by the wrap-around
  into the interval from \<open>- 2^63\<close> up to \<open>2^63 - 1\<close>.  Loop counters are
  incremented only below a bound that is itself a machine integer, so their
  increments are left without it.
\<close>

definition wrap64 :: "int \<Rightarrow> int" where
  "wrap64 z = (z + 2 ^ 63) mod 2 ^ 64 - 2 ^ 63"

definition add64 :: "int \<Rightarrow> int \<Rightarrow> int" where
  "add64 a b = wrap64 (a + b)"

definition sub64 :: "int \<Rightarrow> int \<Rightarrow> int" where
  "sub64 a b = wrap64 (a - b)"

definition mul64 :: "int \<Rightarrow> int \<Rightarrow> int" where
  "mul64 a b = wrap64 (a * b)"

section \<open>Data model\<close>

text \<open>The structs \<^verbatim>\<open>Circle\<close>, \<^verbatim>\<open>Config\<close> and \<^verbatim>\<open>Cell\<close> of the map server.\<close>

record Circle =
  X :: int
  Y :: int
  Radius :: int
  Type :: string

record Config =
  Width :: int
  Height :: int
  Spawns :: int
  Bedrooms :: int
  SpawnR :: int
  BedroomR :: int
  MaxGap :: int

record Cell =
  X :: int
  Y :: int
  Vals :: "int list"

section \<open>Cell classification\<close>

text \<open>
  \<^verbatim>\<open>getCellType\<close> walks the circles in slice order and returns at the first circle
  that matches: 2 when the coordinate is the circle's centre, 1 when the squared
  distance is at most the squared radius, and 0 when no circle matches.
\<close>

definition isCenter :: "int \<Rightarrow> int \<Rightarrow> Circle \<Rightarrow> bool" where
  "isCenter x y circle \<longleftrightarrow> sub64 x (Circle.X circle) = 0 \<and> sub64 y (Circle.Y circle) = 0"

definition withinRadius :: "int \<Rightarrow> int \<Rightarrow> Circle \<Rightarrow> bool" where
  "withinRadius x y circle \<longleftrightarrow>
     (let dx = sub64 x (Circle.X circle); dy = sub64 y (Circle.Y circle)
      in add64 (mul64 dx dx) (mul64 dy dy) \<le> mul64 (Radius circle) (Radius circle))"

fun getCellType :: "int \<Rightarrow> int \<Rightarrow> Circle list \<Rightarrow> int" where
  "getCellType x y [] = 0"
| "getCellType x y (circle # circles) =
     (if isCenter x y circle then 2
      else if withinRadius x y circle then 1
      else getCellType x y circles)"

section \<open>Random source and run-time failures\<close>

text \<open>
  The server draws from the global generator of \<^verbatim>\<open>math/rand\<close>.  The generator is
  made an explicit argument: a list of raw draws that each call consumes from the
  front; a list that has run out keeps answering with the raw draw 0, so a finite
  list stands for the infinite sequence that continues with zeros.
  \<^verbatim>\<open>rand.Intn(n)\<close> panics when \<open>n \<le> 0\<close> and otherwise returns a value below
  \<open>n\<close>; \<^verbatim>\<open>rand.Float64()\<close> returns a multiple of \<open>2^-53\<close> in the half-open unit
  interval.  A value of type \<^verbatim>\<open>float64\<close> is modelled by the real it stands for; the
  rounding of the operations is the subject of the section on floating point.
\<close>

type_synonym rng = "nat list"

datatype error =
    IntnPanic
  | IndexPanic
  | NotPlaced string int
  | CannotPlaceAll

fun nextRaw :: "rng \<Rightarrow> nat \<times> rng" where
  "nextRaw [] = (0, [])"
| "nextRaw (r # g) = (r, g)"

definition Intn :: "int \<Rightarrow> rng \<Rightarrow> error + (int \<times> rng)" where
  "Intn n g =
     (if n \<le> 0 then Inl IntnPanic
      else (case nextRaw g of (r, g') \<Rightarrow> Inr (int r mod n, g')))"

definition Float64 :: "rng \<Rightarrow> real \<times> rng" where
  "Float64 g = (case nextRaw g of (r, g') \<Rightarrow> (real (r mod 2 ^ 53) / 2 ^ 53, g'))"

section \<open>Floating point\<close>

text \<open>
  A finite \<^verbatim>\<open>float64\<close> is modelled by the real number it stands for.  An arithmetic
  operation of IEEE 754 (a product, a square root, the conversion of an integer)
  returns the exact result rounded to the nearest number with a significand of 53
  bits, a tie going to the even significand; the spacing of the numbers does not
  go below \<open>2^-1074\<close>.  \<open>roundEven\<close> rounds a real to the nearest integer in that
  way, \<open>binade a\<close> is the exponent \<open>e\<close> with \<open>2^e \<le> a < 2^(e+1)\<close> of a positive
  \<open>a\<close> (through \<open>bitlen\<close>, the number of binary digits of an integer), and
  \<open>round64\<close> is the rounding of a real to \<^verbatim>\<open>float64\<close>.  A result beyond the largest
  \<^verbatim>\<open>float64\<close> is an infinity in Go; \<open>round64\<close> leaves it a real beyond that number,
  and both are outside the range of \<^verbatim>\<open>int\<close> for the conversion below.  The
  operations modelled here (the product of a probability with 50, of a draw with
  100, the conversion of a 64-bit integer and its square root) have no other
  exceptional result: the square root of a negative number is treated where it
  occurs.
\<close>

definition roundEven :: "real \<Rightarrow> int" where
  "roundEven x =
     (let n = \<lfloor>x\<rfloor>; d = x - of_int n
      in if d < 1 / 2 then n
         else if 1 / 2 < d then n + 1
         else if even n then n else n + 1)"

definition binade :: "real \<Rightarrow> int" where
  "binade a = (if 1 \<le> a then bitlen \<lfloor>a\<rfloor> - 1 else - bitlen (\<lceil>1 / a\<rceil> - 1))"

definition round64 :: "real \<Rightarrow> real" where
  "round64 x =
     (if x = 0 then 0
      else let q = max (binade \<bar>x\<bar> - 52) (- 1074)
           in of_int (roundEven (x / 2 powi q)) * 2 powi q)"

text \<open>
  The conversion \<^verbatim>\<open>int(f)\<close> of a \<^verbatim>\<open>float64\<close> drops the fractional part.  For a value
  outside the range of \<^verbatim>\<open>int\<close> the language leaves the result to the implementation;
  \<open>intOfFloat\<close> gives what the conversion instruction of amd64 gives then, the
  smallest \<^verbatim>\<open>int\<close>.
\<close>

definition truncInt :: "real \<Rightarrow> int" where
  "truncInt r = (if r < 0 then \<lceil>r\<rceil> else \<lfloor>r\<rfloor>)"

definition intOfFloat :: "real \<Rightarrow> int" where
  "intOfFloat f =
     (if - (2 ^ 63) \<le> truncInt f \<and> truncInt f < 2 ^ 63 then truncInt f else - (2 ^ 63))"

section \<open>The grid and the next-state accumulator\<close>

text \<open>
  The nested statements \<^verbatim>\<open>for y := 0; y < cfg.Height; y++ { for x := 0; x < cfg.Width; x++\<close>
  visit the coordinates of the grid row by row.  The map keys
  \<^verbatim>\<open>fmt.Sprintf("%d,%d", x, y)\<close> determine the pair \<open>(x, y)\<close> and are modelled by
  it.  Reading a key that is absent from a Go map yields the nil slice, whose
  length is 0 and to which \<^verbatim>\<open>append\<close> works as to an empty slice.
\<close>

type_synonym coord = "int \<times> int"

type_synonym grid = "coord \<rightharpoonup> int list"

definition gridCoords :: "Config \<Rightarrow> coord list" where
  "gridCoords cfg =
     concat (map (\<lambda>y. map (\<lambda>x. (x, y)) [0..Width cfg - 1]) [0..Height cfg - 1])"

definition lookup :: "grid \<Rightarrow> coord \<Rightarrow> int list" where
  "lookup m k = (case m k of None \<Rightarrow> [] | Some vs \<Rightarrow> vs)"

definition appendTo :: "grid \<Rightarrow> coord \<Rightarrow> int \<Rightarrow> grid" where
  "appendTo m k v = m(k \<mapsto> lookup m k @ [v])"

definition initState :: "Config \<Rightarrow> grid" where
  "initState cfg = fold (\<lambda>k m. m(k \<mapsto> [])) (gridCoords cfg) Map.empty"

definition collectCells :: "Config \<Rightarrow> grid \<Rightarrow> Cell list" where
  "collectCells cfg m =
     concat (map (\<lambda>(x, y). if length (lookup m (x, y)) > 0
                             then [\<lparr>Cell.X = x, Cell.Y = y, Vals = lookup m (x, y)\<rparr>]
                             else [])
                 (gridCoords cfg))"

section \<open>Migration\<close>

definition directions :: "(int \<times> int) list" where
  "directions = [(-1, -1), (-1, 0), (-1, 1), (0, -1), (0, 1), (1, -1), (1, 0), (1, 1)]"

definition getNeighbors :: "int \<Rightarrow> int \<Rightarrow> Config \<Rightarrow> coord list" where
  "getNeighbors x y cfg =
     filter (\<lambda>(nx, ny). nx \<ge> 0 \<and> nx < Width cfg \<and> ny \<ge> 0 \<and> ny < Height cfg)
            (map (\<lambda>(dx, dy). (add64 x dx, add64 y dy)) directions)"

text \<open>
  The shuffle \<^verbatim>\<open>for i := len(neighbors) - 1; i > 0; i-- { j := rand.Intn(i + 1); swap }\<close>;
  the first argument is the current \<open>i\<close>.
\<close>

fun shuffle :: "nat \<Rightarrow> coord list \<Rightarrow> rng \<Rightarrow> error + (coord list \<times> rng)" where
  "shuffle 0 ns g = Inr (ns, g)"
| "shuffle (Suc i) ns g =
     (case Intn (int (Suc i) + 1) g of
        Inl e \<Rightarrow> Inl e
      | Inr (j, g') \<Rightarrow> shuffle i (ns[Suc i := ns ! nat j, nat j := ns ! Suc i]) g')"

text \<open>
  The capacity switch on the neighbour's type: an exterior cell (0) admits a token
  while it holds fewer than two, an interior cell (1) while it holds none, a centre
  (2) never.
\<close>

definition canMove :: "int \<Rightarrow> nat \<Rightarrow> bool" where
  "canMove neighborType currentCount =
     (if neighborType = 0 then currentCount < 2
      else if neighborType = 1 then currentCount < 1
      else False)"

text \<open>
  The scan over the shuffled neighbours: the result is the accumulator with the
  token appended to the first admitting neighbour, or \<open>None\<close> when \<^verbatim>\<open>moved\<close>
  stays false.
\<close>

fun scanNeighbors :: "Circle list \<Rightarrow> grid \<Rightarrow> int \<Rightarrow> coord list \<Rightarrow> grid option" where
  "scanNeighbors circles newState val [] = None"
| "scanNeighbors circles newState val (neigh # rest) =
     (if canMove (getCellType (fst neigh) (snd neigh) circles) (length (lookup newState neigh))
      then Some (appendTo newState neigh val)
      else scanNeighbors circles newState val rest)"

text \<open>
  The body of the inner loop, for one token \<open>val\<close> of the cell at \<open>(x, y)\<close>.  The
  product \<^verbatim>\<open>rand.Float64()*100\<close> is the rounded one.
\<close>

definition moveToken ::
  "Config \<Rightarrow> Circle list \<Rightarrow> real list \<Rightarrow> coord \<Rightarrow> int \<Rightarrow> grid \<times> rng \<Rightarrow> error + (grid \<times> rng)" where
  "moveToken cfg circles speeds pos val st =
     (case st of (newState, g) \<Rightarrow>
      let speedIdx = (if val \<ge> int (length speeds) then 0 else val) in
      if speedIdx < 0 \<or> speedIdx \<ge> int (length speeds) then Inl IndexPanic
      else
        let speed = speeds ! nat speedIdx in
        (case Float64 g of (u, g1) \<Rightarrow>
          if round64 (u * 100) < speed then
            (let neighbors = getNeighbors (fst pos) (snd pos) cfg in
             case shuffle (length neighbors - 1) neighbors g1 of
               Inl e \<Rightarrow> Inl e
             | Inr (shuffled, g2) \<Rightarrow>
                 (case scanNeighbors circles newState val shuffled of
                    Some moved \<Rightarrow> Inr (moved, g2)
                  | None \<Rightarrow> Inr (appendTo newState pos val, g2)))
          else Inr (appendTo newState pos val, g1)))"

fun moveVals ::
  "Config \<Rightarrow> Circle list \<Rightarrow> real list \<Rightarrow> coord \<Rightarrow> int list \<Rightarrow> grid \<times> rng \<Rightarrow> error + (grid \<times> rng)" where
  "moveVals cfg circles speeds pos [] st = Inr st"
| "moveVals cfg circles speeds pos (val # vals) st =
     (case moveToken cfg circles speeds pos val st of
        Inl e \<Rightarrow> Inl e
      | Inr st' \<Rightarrow> moveVals cfg circles speeds pos vals st')"

fun moveCells ::
  "Config \<Rightarrow> Circle list \<Rightarrow> real list \<Rightarrow> Cell list \<Rightarrow> grid \<times> rng \<Rightarrow> error + (grid \<times> rng)" where
  "moveCells cfg circles speeds [] st = Inr st"
| "moveCells cfg circles speeds (cell # cells) st =
     (case moveVals cfg circles speeds (Cell.X cell, Cell.Y cell) (Vals cell) st of
        Inl e \<Rightarrow> Inl e
      | Inr st' \<Rightarrow> moveCells cfg circles speeds cells st')"

text \<open>
  \<^verbatim>\<open>moveNumbers\<close>.  The map \<^verbatim>\<open>state\<close> that the source fills from the input cells is
  never read afterwards and is left out.
\<close>

definition moveNumbers ::
  "Config \<Rightarrow> Circle list \<Rightarrow> Cell list \<Rightarrow> real list \<Rightarrow> rng \<Rightarrow> error + (Cell list \<times> rng)" where
  "moveNumbers cfg circles cells speeds g =
     (if length speeds = 0 then Inr (cells, g)
      else (case moveCells cfg circles speeds cells (initState cfg, g) of
              Inl e \<Rightarrow> Inl e
            | Inr (newState, g') \<Rightarrow> Inr (collectCells cfg newState, g')))"

section \<open>Initial distribution\<close>

text \<open>
  \<^verbatim>\<open>count := int(p * 50)\<close> takes the product as \<^verbatim>\<open>float64\<close> computes it, rounded, and
  converts that; a count that is not positive gives no entry.  The probabilities
  are decoded by \<^verbatim>\<open>encoding/json\<close> or are constants of the program, so they are
  finite.
\<close>

definition createProbabilitySelector :: "real list \<Rightarrow> int list" where
  "createProbabilitySelector probabilities =
     concat (map (\<lambda>(idx, p). replicate (nat (intOfFloat (round64 (p * 50)))) (int idx))
                 (enumerate 0 probabilities))"

text \<open>\<^verbatim>\<open>selector[rand.Intn(len(selector))]\<close>\<close>

definition drawOne :: "int list \<Rightarrow> rng \<Rightarrow> error + (int \<times> rng)" where
  "drawOne selector g =
     (case Intn (int (length selector)) g of
        Inl e \<Rightarrow> Inl e
      | Inr (k, g') \<Rightarrow> Inr (selector ! nat k, g'))"

fun drawVals :: "nat \<Rightarrow> int list \<Rightarrow> rng \<Rightarrow> error + (int list \<times> rng)" where
  "drawVals 0 selector g = Inr ([], g)"
| "drawVals (Suc n) selector g =
     (case drawOne selector g of
        Inl e \<Rightarrow> Inl e
      | Inr (v, g1) \<Rightarrow>
          (case drawVals n selector g1 of
             Inl e \<Rightarrow> Inl e
           | Inr (vs, g2) \<Rightarrow> Inr (v # vs, g2)))"

text \<open>The switch on the cell type that fills \<^verbatim>\<open>vals\<close> for one coordinate.\<close>

definition cellVals :: "Circle list \<Rightarrow> int list \<Rightarrow> coord \<Rightarrow> rng \<Rightarrow> error + (int list \<times> rng)" where
  "cellVals circles selector pos g =
     (let cellType = getCellType (fst pos) (snd pos) circles in
      if cellType = 2 then Inr ([], g)
      else if cellType = 1 then
        (case drawOne selector g of
           Inl e \<Rightarrow> Inl e
         | Inr (v, g1) \<Rightarrow> Inr ([v], g1))
      else if cellType = 0 then
        (case Intn 2 g of
           Inl e \<Rightarrow> Inl e
         | Inr (c, g1) \<Rightarrow> drawVals (nat (1 + c)) selector g1)
      else Inr ([], g))"

fun distributeOver ::
  "Circle list \<Rightarrow> int list \<Rightarrow> coord list \<Rightarrow> Cell list \<Rightarrow> rng \<Rightarrow> error + (Cell list \<times> rng)" where
  "distributeOver circles selector [] cells g = Inr (cells, g)"
| "distributeOver circles selector (pos # rest) cells g =
     (case cellVals circles selector pos g of
        Inl e \<Rightarrow> Inl e
      | Inr (vals, g1) \<Rightarrow>
          distributeOver circles selector rest
            (if length vals > 0
             then cells @ [\<lparr>Cell.X = fst pos, Cell.Y = snd pos, Vals = vals\<rparr>]
             else cells) g1)"

definition generateDistribution ::
  "Config \<Rightarrow> Circle list \<Rightarrow> real list \<Rightarrow> rng \<Rightarrow> error + (Cell list \<times> rng)" where
  "generateDistribution cfg circles probabilities g =
     (let selector = createProbabilitySelector probabilities in
      if length selector = 0 then Inr ([], g)
      else distributeOver circles selector (gridCoords cfg) [] g)"

section \<open>Circle packing\<close>

text \<open>
  The generator of the map server: \<^verbatim>\<open>MapGenerator\<close> with its two slices, the placement
  test \<^verbatim>\<open>canPlaceCircle\<close>, the proposal of a position next to a placed circle, and
  \<^verbatim>\<open>Generate\<close>.

  The overlap test compares \<^verbatim>\<open>math.Sqrt\<close> of the squared distance, computed in
  machine integers and converted to \<^verbatim>\<open>float64\<close>, with the converted sum of the radii;
  the two conversions and the square root (correctly rounded) are taken with
  their rounding.  The square root of a negative number is NaN, and every
  comparison with NaN is false.  The proposal of a position near a circle is
  computed on the reals, without rounding, and its conversion \<^verbatim>\<open>int(f)\<close> is taken as
  the mathematical truncation: whatever position is proposed, it is the test of
  \<^verbatim>\<open>canPlaceCircle\<close> that admits a circle, and the properties below hold for every
  proposal.  (In the runs traced below the proposals come from the angle 0 and
  whole numbers, where \<^verbatim>\<open>float64\<close> is exact.)

  The two placement stages of \<^verbatim>\<open>Generate\<close> differ only in the radius, the slice they
  append to and the word in their error; \<^verbatim>\<open>placeLoop\<close> is their common inner loop
  over the attempts, with a flag for the kind.  The message
  \<^verbatim>\<open>fmt.Errorf("... spawn %d", i+1)\<close> is the value \<open>NotPlaced ''spawn'' (i + 1)\<close>.
\<close>

record MapGenerator =
  config :: Config
  spawns :: "Circle list"
  bedrooms :: "Circle list"

definition NewMapGenerator :: "Config \<Rightarrow> MapGenerator" where
  "NewMapGenerator cfg = \<lparr>config = cfg, spawns = [], bedrooms = []\<rparr>"

definition getAllCircles :: "MapGenerator \<Rightarrow> Circle list" where
  "getAllCircles g =
     map (\<lambda>c. c\<lparr>Type := ''spawn''\<rparr>) (spawns g) @ map (\<lambda>c. c\<lparr>Type := ''bedroom''\<rparr>) (bedrooms g)"

definition overlaps :: "Circle \<Rightarrow> Circle \<Rightarrow> bool" where
  "overlaps newCircle existing \<longleftrightarrow>
     (let dx = sub64 (Circle.X newCircle) (Circle.X existing);
          dy = sub64 (Circle.Y newCircle) (Circle.Y existing);
          d2 = add64 (mul64 dx dx) (mul64 dy dy);
          distance = round64 (sqrt (round64 (real_of_int d2)))
      in 0 \<le> d2 \<and>
         distance < round64 (real_of_int (add64 (Radius newCircle) (Radius existing))))"

definition canPlaceCircle :: "MapGenerator \<Rightarrow> Circle \<Rightarrow> bool" where
  "canPlaceCircle g newCircle =
     (if sub64 (Circle.X newCircle) (Radius newCircle) < 0 \<or>
         add64 (Circle.X newCircle) (Radius newCircle) \<ge> Width (config g) \<or>
         sub64 (Circle.Y newCircle) (Radius newCircle) < 0 \<or>
         add64 (Circle.Y newCircle) (Radius newCircle) \<ge> Height (config g)
      then False
      else list_all (\<lambda>existing. \<not> overlaps newCircle existing) (getAllCircles g))"

text \<open>
  The uniform proposal \<^verbatim>\<open>radius + rand.Intn(Width - 2*radius)\<close>, and the same for
  \<^verbatim>\<open>y\<close>: the branch of \<^verbatim>\<open>Generate\<close> for an empty set of circles and the fallback
  after the 30 attempts of \<^verbatim>\<open>generateNearbyPosition\<close>.
\<close>

definition uniformPosition :: "MapGenerator \<Rightarrow> int \<Rightarrow> rng \<Rightarrow> error + (coord \<times> rng)" where
  "uniformPosition g radius rng =
     (case Intn (sub64 (Width (config g)) (mul64 2 radius)) rng of
        Inl e \<Rightarrow> Inl e
      | Inr (a, rng1) \<Rightarrow>
          (case Intn (sub64 (Height (config g)) (mul64 2 radius)) rng1 of
             Inl e \<Rightarrow> Inl e
           | Inr (b, rng2) \<Rightarrow> Inr ((add64 radius a, add64 radius b), rng2)))"

text \<open>
  The loop \<^verbatim>\<open>for attempts := 0; attempts < 30; attempts++\<close> of
  \<^verbatim>\<open>generateNearbyPosition\<close>, with the counter as an argument.
\<close>

function nearbyLoop ::
  "MapGenerator \<Rightarrow> Circle \<Rightarrow> int \<Rightarrow> int \<Rightarrow> rng \<Rightarrow> error + (coord \<times> rng)" where
  "nearbyLoop g baseCircle radius attempts rng =
     (if attempts < 30 then
        (case Float64 rng of (a, rng1) \<Rightarrow>
           (case Float64 rng1 of (b, rng2) \<Rightarrow>
              let angle = a * 2 * pi;
                  minDistance = real_of_int (add64 (Radius baseCircle) radius);
                  maxDistance = minDistance + real_of_int (MaxGap (config g));
                  distance = minDistance + b * (maxDistance - minDistance);
                  x = truncInt (real_of_int (Circle.X baseCircle) + distance * cos angle);
                  y = truncInt (real_of_int (Circle.Y baseCircle) + distance * sin angle)
              in if x \<ge> radius \<and> x < sub64 (Width (config g)) radius \<and>
                    y \<ge> radius \<and> y < sub64 (Height (config g)) radius
                 then Inr ((x, y), rng2)
                 else nearbyLoop g baseCircle radius (attempts + 1) rng2))
      else uniformPosition g radius rng)"
  by pat_completeness auto
termination
  by (relation "measure (\<lambda>(g, baseCircle, radius, attempts, rng). nat (30 - attempts))") auto

declare nearbyLoop.simps [simp del]

definition generateNearbyPosition ::
  "MapGenerator \<Rightarrow> Circle \<Rightarrow> int \<Rightarrow> rng \<Rightarrow> error + (coord \<times> rng)" where
  "generateNearbyPosition g baseCircle radius rng = nearbyLoop g baseCircle radius 0 rng"

text \<open>One proposal of a placement attempt, next to a placed circle when there is one.\<close>

definition propose :: "MapGenerator \<Rightarrow> int \<Rightarrow> rng \<Rightarrow> error + (coord \<times> rng)" where
  "propose g radius rng =
     (let existing = getAllCircles g in
      if length existing > 0 then
        (case Intn (int (length existing)) rng of
           Inl e \<Rightarrow> Inl e
         | Inr (k, rng1) \<Rightarrow> generateNearbyPosition g (existing ! nat k) radius rng1)
      else uniformPosition g radius rng)"

text \<open>
  The radius, the slice and the new circle of the spawn loop (flag true) and of the
  bedroom loop (flag false), and the loop
  \<^verbatim>\<open>for attempts := 0; attempts < 3000; attempts++\<close>, which returns the value of
  \<^verbatim>\<open>placed\<close> with the generator.
\<close>

definition radiusOf :: "bool \<Rightarrow> MapGenerator \<Rightarrow> int" where
  "radiusOf isSpawn g = (if isSpawn then SpawnR (config g) else BedroomR (config g))"

definition addCircle :: "bool \<Rightarrow> Circle \<Rightarrow> MapGenerator \<Rightarrow> MapGenerator" where
  "addCircle isSpawn newCircle g =
     (if isSpawn then g\<lparr>spawns := spawns g @ [newCircle]\<rparr>
      else g\<lparr>bedrooms := bedrooms g @ [newCircle]\<rparr>)"

definition candidate :: "bool \<Rightarrow> MapGenerator \<Rightarrow> coord \<Rightarrow> Circle" where
  "candidate isSpawn g pos =
     \<lparr>Circle.X = fst pos, Circle.Y = snd pos, Radius = radiusOf isSpawn g, Type = ''''\<rparr>"

function placeLoop ::
  "bool \<Rightarrow> int \<Rightarrow> MapGenerator \<Rightarrow> rng \<Rightarrow> error + (bool \<times> MapGenerator \<times> rng)" where
  "placeLoop isSpawn attempts g rng =
     (if attempts < 3000 then
        (case propose g (radiusOf isSpawn g) rng of
           Inl e \<Rightarrow> Inl e
         | Inr (pos, rng') \<Rightarrow>
             if canPlaceCircle g (candidate isSpawn g pos)
             then Inr (True, addCircle isSpawn (candidate isSpawn g pos) g, rng')
             else placeLoop isSpawn (attempts + 1) g rng')
      else Inr (False, g, rng))"
  by pat_completeness auto
termination
  by (relation "measure (\<lambda>(isSpawn, attempts, g, rng). nat (3000 - attempts))") auto

declare placeLoop.simps [simp del]

lemma placeLoop_config:
  "placeLoop isSpawn attempts g rng = Inr (placed, g', rng') \<Longrightarrow> config g' = config g"
proof (induction isSpawn attempts g rng rule: placeLoop.induct)
  case (1 isSpawn attempts g rng)
  show ?case
  proof (cases "attempts < 3000")
    case False
    with "1.prems" show ?thesis by (simp add: placeLoop.simps)
  next
    case True
    note unf = placeLoop.simps[of isSpawn attempts g rng]
    from True "1.prems" obtain pos rng1 where p: "propose g (radiusOf isSpawn g) rng = Inr (pos, rng1)"
      by (auto simp: unf split: sum.splits)
    show ?thesis
    proof (cases "canPlaceCircle g (candidate isSpawn g pos)")
      case True
      with \<open>attempts < 3000\<close> p "1.prems" show ?thesis by (auto simp: unf addCircle_def)
    next
      case False
      with \<open>attempts < 3000\<close> p "1.prems" have "placeLoop isSpawn (attempts + 1) g rng1 = Inr (placed, g', rng')"
        by (simp add: unf)
      from "1.IH"[OF \<open>attempts < 3000\<close> p refl False this] show ?thesis .
    qed
  qed
qed

text \<open>
  The outer iterations \<^verbatim>\<open>for i := len(g.spawns); i < g.config.Spawns; i++\<close> and
  \<^verbatim>\<open>for i := 0; i < g.config.Bedrooms; i++\<close>.  They terminate because the inner
  loop leaves the configuration as it is.
\<close>

function spawnLoop :: "int \<Rightarrow> MapGenerator \<Rightarrow> rng \<Rightarrow> error + (MapGenerator \<times> rng)" where
  "spawnLoop i g rng =
     (if i < Spawns (config g) then
        (case placeLoop True 0 g rng of
           Inl e \<Rightarrow> Inl e
         | Inr (placed, g', rng') \<Rightarrow>
             if \<not> placed then Inl (NotPlaced ''spawn'' (i + 1))
             else spawnLoop (i + 1) g' rng')
      else Inr (g, rng))"
  by pat_completeness auto
termination
proof (relation "measure (\<lambda>(i, g, rng). nat (Spawns (config g) - i))")
  show "wf (measure (\<lambda>(i, g, rng). nat (Spawns (config g) - i)))" by simp
next
  fix i g rng x2 placed y g' rng'
  assume "i < Spawns (config g)" "placeLoop True 0 g rng = Inr x2" "(placed, y) = x2" "(g', rng') = y"
    "\<not> \<not> placed"
  then have "config g' = config g" using placeLoop_config[of True 0 g rng placed g' rng'] by auto
  with \<open>i < Spawns (config g)\<close>
  show "((i + 1, g', rng'), i, g, rng) \<in> measure (\<lambda>(i, g, rng). nat (Spawns (config g) - i))"
    by simp
qed

function bedroomLoop :: "int \<Rightarrow> MapGenerator \<Rightarrow> rng \<Rightarrow> error + (MapGenerator \<times> rng)" where
  "bedroomLoop i g rng =
     (if i < Bedrooms (config g) then
        (case placeLoop False 0 g rng of
           Inl e \<Rightarrow> Inl e
         | Inr (placed, g', rng') \<Rightarrow>
             if \<not> placed then Inl (NotPlaced ''bedroom'' (i + 1))
             else bedroomLoop (i + 1) g' rng')
      else Inr (g, rng))"
  by pat_completeness auto
termination
proof (relation "measure (\<lambda>(i, g, rng). nat (Bedrooms (config g) - i))")
  show "wf (measure (\<lambda>(i, g, rng). nat (Bedrooms (config g) - i)))" by simp
next
  fix i g rng x2 placed y g' rng'
  assume "i < Bedrooms (config g)" "placeLoop False 0 g rng = Inr x2" "(placed, y) = x2" "(g', rng') = y"
    "\<not> \<not> placed"
  then have "config g' = config g" using placeLoop_config[of False 0 g rng placed g' rng'] by auto
  with \<open>i < Bedrooms (config g)\<close>
  show "((i + 1, g', rng'), i, g, rng) \<in> measure (\<lambda>(i, g, rng). nat (Bedrooms (config g) - i))"
    by simp
qed

declare spawnLoop.simps [simp del] bedroomLoop.simps [simp del]

text \<open>
  The first block of \<^verbatim>\<open>Generate\<close> tries the circle at the centre of the bounds; the
  division of Go truncates towards zero.
\<close>

definition placeCenter :: "MapGenerator \<Rightarrow> MapGenerator" where
  "placeCenter g =
     (if Spawns (config g) > 0 then
        (let center = \<lparr>Circle.X = Width (config g) sdiv 2, Circle.Y = Height (config g) sdiv 2,
                          Radius = SpawnR (config g), Type = ''''\<rparr>
         in if canPlaceCircle g center then g\<lparr>spawns := spawns g @ [center]\<rparr> else g)
      else g)"

definition Generate :: "MapGenerator \<Rightarrow> rng \<Rightarrow> error + (MapGenerator \<times> rng)" where
  "Generate g rng =
     (let g1 = placeCenter g in
      case spawnLoop (int (length (spawns g1))) g1 rng of
        Inl e \<Rightarrow> Inl e
      | Inr (g2, rng2) \<Rightarrow> bedroomLoop 0 g2 rng2)"

text \<open>\<^verbatim>\<open>validateConfig\<close>, with its three messages as values.\<close>

datatype config_error = NonPositiveSize | SizeTooLarge | NegativeCount

definition validateConfig :: "Config \<Rightarrow> config_error option" where
  "validateConfig cfg =
     (if Width cfg \<le> 0 \<or> Height cfg \<le> 0 then Some NonPositiveSize
      else if Width cfg > 100 \<or> Height cfg > 100 then Some SizeTooLarge
      else if Spawns cfg < 0 \<or> Bedrooms cfg < 0 then Some NegativeCount
      else None)"

section \<open>Properties of the rounding\<close>

text \<open>
  The rounding never crosses a number of the format: a real below (above) a number
  \<open>m * 2^k\<close> with \<open>\<bar>m\<bar> \<le> 2^53\<close> and \<open>k \<ge> -1074\<close> is rounded to a number that is
  not above (not below) it, and such a number is rounded to itself.
\<close>

lemma round64_zero [simp]: "round64 0 = 0"
  by (simp add: round64_def)

lemma roundEven_ge: "\<lfloor>x\<rfloor> \<le> roundEven x"
  by (simp add: roundEven_def Let_def)

lemma roundEven_le: "roundEven x \<le> \<lceil>x\<rceil>"
  unfolding roundEven_def Let_def
  by (auto simp: ceiling_altdef)

lemma roundEven_of_int [simp]: "roundEven (of_int n) = n"
  by (simp add: roundEven_def)

lemma roundEven_minus: "roundEven (- x) = - roundEven x"
proof (cases "x \<in> \<int>")
  case True
  then obtain n where "x = of_int n" by (auto elim: Ints_cases)
  then have "roundEven (- x) = roundEven (of_int (- n))" by simp
  also have "\<dots> = - n" by (rule roundEven_of_int)
  finally show ?thesis using \<open>x = of_int n\<close> by simp
next
  case False
  have ne: "x \<noteq> of_int \<lfloor>x\<rfloor>"
    using False Ints_of_int by metis
  have f: "\<lfloor>- x\<rfloor> = - \<lfloor>x\<rfloor> - 1"
    using ne by (simp add: floor_minus ceiling_altdef)
  have d: "0 < x - of_int \<lfloor>x\<rfloor>"
    using ne of_int_floor_le[of x] by linarith
  show ?thesis
    unfolding roundEven_def Let_def f using d
    by (auto simp: algebra_simps)
qed

lemma powi_nat: "0 \<le> k \<Longrightarrow> (2::real) powi k = 2 ^ nat k"
  by (simp add: power_int_def)

lemma bitlen_pos: "0 < n \<Longrightarrow> 1 \<le> bitlen n"
  using bitlen_eq_zero_iff[of n] bitlen_nonneg[of n] by linarith

lemma binade_bounds:
  assumes "0 < a"
  shows "2 powi binade a \<le> a" and "a < 2 powi (binade a + 1)"
proof -
  have "2 powi binade a \<le> a \<and> a < 2 powi (binade a + 1)"
  proof (cases "1 \<le> a")
    case True
    define n where "n = \<lfloor>a\<rfloor>"
    have n: "1 \<le> n" using True by (simp add: n_def le_floor_iff)
    then have b: "1 \<le> bitlen n" using bitlen_pos[of n] by simp
    from bitlen_bounds[of n] n
    have lo: "(2::int) ^ nat (bitlen n - 1) \<le> n" and hi: "n < 2 ^ nat (bitlen n)" by auto
    have "real_of_int (2 ^ nat (bitlen n - 1)) \<le> real_of_int n" using lo by (rule of_int_le_iff[THEN iffD2])
    then have r1: "(2::real) ^ nat (bitlen n - 1) \<le> real_of_int n" by simp
    have "real_of_int n \<le> a" by (simp add: n_def)
    with r1 have 1: "(2::real) ^ nat (bitlen n - 1) \<le> a" by linarith
    have "n + 1 \<le> 2 ^ nat (bitlen n)" using hi by simp
    then have "real_of_int (n + 1) \<le> real_of_int (2 ^ nat (bitlen n))" by (rule of_int_le_iff[THEN iffD2])
    then have r2: "real_of_int n + 1 \<le> (2::real) ^ nat (bitlen n)" by simp
    have "a < real_of_int n + 1" unfolding n_def by linarith
    with r2 have 2: "a < (2::real) ^ nat (bitlen n)" by linarith
    have e: "binade a = bitlen n - 1" using True by (simp add: binade_def n_def)
    show ?thesis using 1 2 b by (simp add: e powi_nat)
  next
    case False
    define n where "n = \<lceil>1 / a\<rceil> - 1"
    have a1: "a < 1" using False by simp
    have inv: "1 < 1 / a" using assms a1 by simp
    then have "2 \<le> \<lceil>1 / a\<rceil>" by linarith
    then have n: "1 \<le> n" by (simp add: n_def)
    then have b: "1 \<le> bitlen n" using bitlen_pos[of n] by simp
    from bitlen_bounds[of n] n
    have lo: "(2::int) ^ nat (bitlen n - 1) \<le> n" and hi: "n < 2 ^ nat (bitlen n)" by auto
    have "real_of_int (2 ^ nat (bitlen n - 1)) \<le> real_of_int n" using lo by (rule of_int_le_iff[THEN iffD2])
    then have r1: "(2::real) ^ nat (bitlen n - 1) \<le> real_of_int n" by simp
    have "real_of_int n < 1 / a" unfolding n_def by linarith
    with r1 have 1: "(2::real) ^ nat (bitlen n - 1) < 1 / a" by linarith
    have "n + 1 \<le> 2 ^ nat (bitlen n)" using hi by simp
    then have "real_of_int (n + 1) \<le> real_of_int (2 ^ nat (bitlen n))" by (rule of_int_le_iff[THEN iffD2])
    then have r2: "real_of_int n + 1 \<le> (2::real) ^ nat (bitlen n)" by simp
    have "1 / a \<le> real_of_int n + 1" unfolding n_def by simp
    with r2 have 2: "1 / a \<le> (2::real) ^ nat (bitlen n)" by linarith
    have e: "binade a = - bitlen n" using False by (simp add: binade_def n_def)
    have p1: "(2::real) powi (- bitlen n) = 1 / 2 ^ nat (bitlen n)"
      using b by (simp add: power_int_minus_divide powi_nat)
    have p2: "(2::real) powi (1 - bitlen n) = 1 / 2 ^ nat (bitlen n - 1)"
    proof -
      have "1 - bitlen n = - (bitlen n - 1)" by simp
      then show ?thesis using b by (simp only: power_int_minus_divide) (simp add: powi_nat)
    qed
    have 3: "1 / 2 ^ nat (bitlen n) \<le> a"
      using 2 assms by (simp add: field_simps)
    have 4: "a < 1 / 2 ^ nat (bitlen n - 1)"
      using 1 assms by (simp add: field_simps)
    show ?thesis using 3 4 by (simp add: e p1 p2)
  qed
  then show "2 powi binade a \<le> a" and "a < 2 powi (binade a + 1)" by auto
qed
lemma round64_pos:
  assumes "0 < x"
  obtains q where "- 1074 \<le> q" "binade x - 52 \<le> q" "q = - 1074 \<or> q = binade x - 52"
    "round64 x = of_int (roundEven (x / 2 powi q)) * 2 powi q"
proof
  let ?q = "max (binade x - 52) (- 1074)"
  show "- 1074 \<le> ?q" "binade x - 52 \<le> ?q" "?q = - 1074 \<or> ?q = binade x - 52" by auto
  show "round64 x = of_int (roundEven (x / 2 powi ?q)) * 2 powi ?q"
    using assms by (simp add: round64_def Let_def)
qed

lemma rep_scale:
  assumes "q \<le> k"
  shows "real_of_int m * 2 powi k = real_of_int (m * 2 ^ nat (k - q)) * 2 powi q"
proof -
  have "(2::real) powi k = 2 powi ((k - q) + q)" by simp
  also have "\<dots> = 2 powi (k - q) * 2 powi q" by (rule power_int_add) simp
  also have "(2::real) powi (k - q) = 2 ^ nat (k - q)" using assms by (simp add: powi_nat)
  finally show ?thesis by simp
qed

lemma rep_small:
  assumes "k < q" "\<bar>m\<bar> \<le> 2 ^ 53"
  shows "\<bar>real_of_int m * 2 powi k\<bar> \<le> 2 powi (q + 52)"
proof -
  have "\<bar>real_of_int m\<bar> \<le> 2 ^ 53"
    using assms(2) by (metis of_int_abs of_int_le_iff of_int_numeral of_int_power)
  moreover have "(2::real) powi k \<le> 2 powi (q - 1)"
    using assms(1) by (intro power_int_increasing) auto
  ultimately have "\<bar>real_of_int m\<bar> * 2 powi k \<le> 2 ^ 53 * 2 powi (q - 1)"
    by (intro mult_mono) auto
  also have "(2::real) ^ 53 * 2 powi (q - 1) = 2 powi 53 * 2 powi (q - 1)" by simp
  also have "\<dots> = 2 powi (53 + (q - 1))" by (rule power_int_add[symmetric]) simp
  also have "53 + (q - 1) = q + 52" by simp
  finally show ?thesis by (simp add: abs_mult)
qed

lemma round64_upper_pos:
  assumes x: "0 < x" and le: "x \<le> real_of_int m * 2 powi k"
    and m: "\<bar>m\<bar> \<le> 2 ^ 53" and k: "- 1074 \<le> k"
  shows "round64 x \<le> real_of_int m * 2 powi k"
proof -
  from round64_pos[OF x] obtain q where q: "- 1074 \<le> q" "binade x - 52 \<le> q"
    "q = - 1074 \<or> q = binade x - 52"
    and r: "round64 x = of_int (roundEven (x / 2 powi q)) * 2 powi q" by blast
  have u: "0 < (2::real) powi q" by simp
  show ?thesis
  proof (cases "q \<le> k")
    case True
    define N where "N = m * 2 ^ nat (k - q)"
    have y: "real_of_int m * 2 powi k = real_of_int N * 2 powi q"
      unfolding N_def by (rule rep_scale[OF True])
    have "x / 2 powi q \<le> real_of_int N" using le u by (simp add: y field_simps)
    then have "\<lceil>x / 2 powi q\<rceil> \<le> N" by (simp add: ceiling_le_iff)
    then have "roundEven (x / 2 powi q) \<le> N" using roundEven_le[of "x / 2 powi q"] by linarith
    then have "real_of_int (roundEven (x / 2 powi q)) \<le> real_of_int N" by simp
    then show ?thesis unfolding r y using u by (simp add: mult_right_mono)
  next
    case False
    then have kq: "k < q" by simp
    with k q have qe: "q = binade x - 52" by linarith
    have "real_of_int m * 2 powi k \<le> 2 powi (q + 52)"
      using rep_small[OF kq m] by linarith
    also have "q + 52 = binade x" using qe by simp
    finally have "real_of_int m * 2 powi k \<le> 2 powi binade x" .
    with binade_bounds(1)[OF x] le have xe: "x = 2 powi binade x" and ye: "real_of_int m * 2 powi k = x"
      by linarith+
    have "x / 2 powi q = 2 powi (binade x - q)"
      by (subst xe) (simp add: power_int_diff)
    also have "\<dots> = real_of_int (2 ^ 52)" by (simp add: qe)
    finally have t: "x / 2 powi q = real_of_int (2 ^ 52)" .
    have "round64 x = real_of_int (2 ^ 52) * 2 powi q"
      unfolding r t by (simp only: roundEven_of_int)
    also have "\<dots> = (x / 2 powi q) * 2 powi q" by (simp only: t)
    also have "\<dots> = x" by simp
    finally show ?thesis using ye by simp
  qed
qed

lemma round64_lower_pos:
  assumes x: "0 < x" and le: "real_of_int m * 2 powi k \<le> x"
    and m: "\<bar>m\<bar> \<le> 2 ^ 53" and k: "- 1074 \<le> k"
  shows "real_of_int m * 2 powi k \<le> round64 x"
proof -
  from round64_pos[OF x] obtain q where q: "- 1074 \<le> q" "binade x - 52 \<le> q"
    "q = - 1074 \<or> q = binade x - 52"
    and r: "round64 x = of_int (roundEven (x / 2 powi q)) * 2 powi q" by blast
  have u: "0 < (2::real) powi q" by simp
  show ?thesis
  proof (cases "q \<le> k")
    case True
    define N where "N = m * 2 ^ nat (k - q)"
    have y: "real_of_int m * 2 powi k = real_of_int N * 2 powi q"
      unfolding N_def by (rule rep_scale[OF True])
    have "real_of_int N \<le> x / 2 powi q" using le u by (simp add: y field_simps)
    then have "N \<le> \<lfloor>x / 2 powi q\<rfloor>" by (simp add: le_floor_iff)
    then have "N \<le> roundEven (x / 2 powi q)" using roundEven_ge[of "x / 2 powi q"] by linarith
    then have "real_of_int N \<le> real_of_int (roundEven (x / 2 powi q))" by simp
    then show ?thesis unfolding r y using u by (simp add: mult_right_mono)
  next
    case False
    then have kq: "k < q" by simp
    with k q have qe: "q = binade x - 52" by linarith
    have "real_of_int m * 2 powi k \<le> 2 powi (q + 52)"
      using rep_small[OF kq m] by linarith
    also have "q + 52 = binade x" using qe by simp
    finally have ye: "real_of_int m * 2 powi k \<le> 2 powi binade x" .
    have "2 powi binade x / 2 powi q \<le> x / 2 powi q"
      using binade_bounds(1)[OF x] u by (simp add: divide_right_mono)
    moreover have "2 powi binade x / 2 powi q = (2::real) powi (binade x - q)"
      by (simp add: power_int_diff)
    moreover have "(2::real) powi (binade x - q) = real_of_int (2 ^ 52)" by (simp add: qe)
    ultimately have "real_of_int (2 ^ 52) \<le> x / 2 powi q" by simp
    then have "2 ^ 52 \<le> \<lfloor>x / 2 powi q\<rfloor>" by (simp only: le_floor_iff)
    then have "2 ^ 52 \<le> roundEven (x / 2 powi q)" using roundEven_ge[of "x / 2 powi q"] by linarith
    then have "real_of_int (2 ^ 52) \<le> real_of_int (roundEven (x / 2 powi q))"
      by (simp only: of_int_le_iff)
    then have "real_of_int (2 ^ 52) * 2 powi q \<le> round64 x"
      unfolding r using u by (simp add: mult_right_mono)
    moreover have "real_of_int (2 ^ 52) * 2 powi q = 2 powi binade x"
    proof -
      have "real_of_int (2 ^ 52) * 2 powi q = 2 powi 52 * 2 powi q" by simp
      also have "\<dots> = 2 powi (52 + q)" by (rule power_int_add[symmetric]) simp
      also have "52 + q = binade x" using qe by simp
      finally show ?thesis .
    qed
    ultimately show ?thesis using ye by linarith
  qed
qed
lemma round64_minus: "round64 (- x) = - round64 x"
  by (simp add: round64_def Let_def roundEven_minus)

lemma round64_nonneg: "0 \<le> x \<Longrightarrow> 0 \<le> round64 x"
  using round64_lower_pos[of x 0 0] by (cases "x = 0") (simp_all add: round64_def)

lemma round64_lower:
  assumes le: "real_of_int m * 2 powi k \<le> x" and m: "\<bar>m\<bar> \<le> 2 ^ 53" and k: "- 1074 \<le> k"
  shows "real_of_int m * 2 powi k \<le> round64 x"
proof -
  consider "0 < x" | "x = 0" | "x < 0" by linarith
  then show ?thesis
  proof cases
    case 1 then show ?thesis by (rule round64_lower_pos[OF _ le m k])
  next
    case 2 then show ?thesis using le by (simp add: round64_def)
  next
    case 3
    then have p: "0 < - x" by simp
    have "- x \<le> real_of_int (- m) * 2 powi k" using le by simp
    from round64_upper_pos[OF p this _ k] m
    have "round64 (- x) \<le> real_of_int (- m) * 2 powi k" by simp
    then show ?thesis by (simp add: round64_minus)
  qed
qed

lemma round64_upper:
  assumes le: "x \<le> real_of_int m * 2 powi k" and m: "\<bar>m\<bar> \<le> 2 ^ 53" and k: "- 1074 \<le> k"
  shows "round64 x \<le> real_of_int m * 2 powi k"
proof -
  have "real_of_int (- m) * 2 powi k \<le> - x" using le by simp
  from round64_lower[OF this _ k] m
  have "real_of_int (- m) * 2 powi k \<le> round64 (- x)" by simp
  then show ?thesis by (simp add: round64_minus)
qed

lemma round64_exact:
  assumes "\<bar>m\<bar> \<le> 2 ^ 53" "- 1074 \<le> k"
  shows "round64 (real_of_int m * 2 powi k) = real_of_int m * 2 powi k"
  using round64_lower[OF order_refl assms] round64_upper[OF order_refl assms] by (rule antisym[rotated])

lemma round64_of_int: "\<bar>n\<bar> \<le> 2 ^ 53 \<Longrightarrow> round64 (real_of_int n) = real_of_int n"
  using round64_exact[of n 0] by simp

lemma round64_ge_int: "\<bar>n\<bar> \<le> 2 ^ 53 \<Longrightarrow> real_of_int n \<le> x \<Longrightarrow> real_of_int n \<le> round64 x"
  using round64_lower[of n 0 x] by simp

lemma round64_le_int: "\<bar>n\<bar> \<le> 2 ^ 53 \<Longrightarrow> x \<le> real_of_int n \<Longrightarrow> round64 x \<le> real_of_int n"
  using round64_upper[of x n 0] by simp
lemma binade_eq:
  assumes "2 powi e \<le> a" "a < 2 powi (e + 1)"
  shows "binade a = e"
proof -
  have a: "0 < a" using assms(1) zero_less_power_int[of "2::real" e] by linarith
  have "(2::real) powi binade a < 2 powi (e + 1)"
    using binade_bounds(1)[OF a] assms(2) by linarith
  then have 1: "binade a < e + 1"
    using power_int_increasing[of "e + 1" "binade a" "2::real"] by (cases "binade a < e + 1") auto
  have "(2::real) powi e < 2 powi (binade a + 1)"
    using binade_bounds(2)[OF a] assms(1) by linarith
  then have 2: "e < binade a + 1"
    using power_int_increasing[of "binade a + 1" e "2::real"] by (cases "e < binade a + 1") auto
  from 1 2 show ?thesis by linarith
qed

lemma round64_eval:
  assumes "2 ^ 52 * 2 powi q \<le> \<bar>x\<bar>" "\<bar>x\<bar> < 2 ^ 53 * 2 powi q" "- 1074 \<le> q"
  shows "round64 x = real_of_int (roundEven (x / 2 powi q)) * 2 powi q"
proof -
  have 1: "(2::real) ^ 52 * 2 powi q = 2 powi (q + 52)"
  proof -
    have "(2::real) ^ 52 * 2 powi q = 2 powi 52 * 2 powi q" by simp
    also have "\<dots> = 2 powi (52 + q)" by (rule power_int_add[symmetric]) simp
    finally show ?thesis by (simp add: add.commute)
  qed
  have 2: "(2::real) ^ 53 * 2 powi q = 2 powi (q + 52 + 1)"
  proof -
    have "(2::real) ^ 53 * 2 powi q = 2 powi 53 * 2 powi q" by simp
    also have "\<dots> = 2 powi (53 + q)" by (rule power_int_add[symmetric]) simp
    also have "53 + q = q + 52 + 1" by simp
    finally show ?thesis .
  qed
  have b: "binade \<bar>x\<bar> = q + 52"
    using assms(1,2) unfolding 1 2 by (rule binade_eq)
  have "0 < (2::real) powi q" by simp
  then have "0 < (2::real) ^ 52 * 2 powi q" by simp
  with assms(1) have "0 < \<bar>x\<bar>" by linarith
  then have "x \<noteq> 0" by simp
  then show ?thesis using assms(3) by (simp add: round64_def Let_def b max_def)
qed

lemma roundEven_near:
  assumes "\<bar>t - real_of_int n\<bar> < 1 / 2"
  shows "roundEven t = n"
proof (cases "real_of_int n \<le> t")
  case True
  then have f: "\<lfloor>t\<rfloor> = n" using assms by (simp add: floor_unique)
  show ?thesis using assms True by (simp add: roundEven_def f)
next
  case False
  then have f: "\<lfloor>t\<rfloor> = n - 1" using assms by (intro floor_unique) auto
  show ?thesis using assms False by (simp add: roundEven_def f)
qed

lemma round64_near:
  assumes "2 ^ 52 * 2 powi q \<le> \<bar>x\<bar>" "\<bar>x\<bar> < 2 ^ 53 * 2 powi q" "- 1074 \<le> q"
    and "\<bar>x - real_of_int n * 2 powi q\<bar> < 2 powi q / 2"
  shows "round64 x = real_of_int n * 2 powi q"
proof -
  have u: "0 < (2::real) powi q" by simp
  have "\<bar>x / 2 powi q - real_of_int n\<bar> = \<bar>x - real_of_int n * 2 powi q\<bar> / 2 powi q"
    using u by (simp add: field_simps abs_divide flip: abs_mult)
  also have "\<dots> < (2 powi q / 2) / 2 powi q" using assms(4) u by (simp add: divide_strict_right_mono)
  also have "\<dots> = 1 / 2" by simp
  finally have "roundEven (x / 2 powi q) = n" by (rule roundEven_near)
  then show ?thesis using round64_eval[OF assms(1,2,3)] by simp
qed

lemma sqrt_less_of_int:
  assumes "0 \<le> d"
  shows "sqrt (real_of_int d) < real_of_int s \<longleftrightarrow> 0 < s \<and> d < s * s"
proof (cases "0 < s")
  case False
  then have "real_of_int s \<le> 0" by simp
  moreover have "0 \<le> sqrt (real_of_int d)" using assms by simp
  ultimately show ?thesis using False by linarith
next
  case True
  then have "real_of_int s = sqrt (real_of_int (s * s))"
    by (simp add: real_sqrt_mult)
  then have "sqrt (real_of_int d) < real_of_int s \<longleftrightarrow> real_of_int d < real_of_int (s * s)"
    by (simp only: real_sqrt_less_iff)
  also have "\<dots> \<longleftrightarrow> d < s * s" by (simp only: of_int_less_iff)
  finally show ?thesis using True by simp
qed

text \<open>
  For a squared distance up to \<open>2^53\<close> and a sum of radii up to \<open>2^26\<close> the
  comparison of the rounded values decides as the comparison of the exact ones:
  the integers are converted exactly, and an exact square root below the integer
  \<open>s\<close> is at most \<open>s - 2^-27\<close>, a number of the format.
\<close>

lemma rounded_sqrt_less:
  assumes d: "0 \<le> d" "d \<le> 2 ^ 53" and s: "\<bar>s\<bar> \<le> 2 ^ 26"
  shows "round64 (sqrt (round64 (real_of_int d))) < round64 (real_of_int s) \<longleftrightarrow>
         sqrt (real_of_int d) < real_of_int s"
proof -
  have "\<bar>d\<bar> \<le> 2 ^ 53" using d by simp
  then have rd: "round64 (real_of_int d) = real_of_int d" by (rule round64_of_int)
  have s53: "\<bar>s\<bar> \<le> 2 ^ 53" using s by simp
  then have rs: "round64 (real_of_int s) = real_of_int s" by (rule round64_of_int)
  have "round64 (sqrt (real_of_int d)) < real_of_int s \<longleftrightarrow> sqrt (real_of_int d) < real_of_int s"
  proof
    assume "round64 (sqrt (real_of_int d)) < real_of_int s"
    then have "\<not> real_of_int s \<le> round64 (sqrt (real_of_int d))" by simp
    then have "\<not> real_of_int s \<le> sqrt (real_of_int d)"
      using round64_ge_int[OF s53, of "sqrt (real_of_int d)"] by blast
    then show "sqrt (real_of_int d) < real_of_int s" by simp
  next
    assume "sqrt (real_of_int d) < real_of_int s"
    then have sp: "0 < s" and ds: "d < s * s" using sqrt_less_of_int[OF d(1), of s] by auto
    have s26: "s \<le> 2 ^ 26" using s by simp
    define m where "m = s * 2 ^ 27 - 1"
    define y where "y = real_of_int m * 2 powi (- 27)"
    have ym: "y = real_of_int s - 1 / 2 ^ 27"
      by (simp add: y_def m_def power_int_minus_divide field_simps)
    have "s * 2 ^ 27 \<le> 2 ^ 26 * 2 ^ 27" using s26 by simp
    then have mb: "\<bar>m\<bar> \<le> 2 ^ 53" using sp by (simp add: m_def)
    have y0: "0 \<le> y" using sp by (simp add: ym)
    have "real_of_int s \<le> 2 ^ 26" using s26 by (metis of_int_le_iff of_int_numeral of_int_power)
    then have "2 * real_of_int s / 2 ^ 27 \<le> 1" by simp
    moreover have "y\<^sup>2 = (real_of_int s)\<^sup>2 - 2 * real_of_int s / 2 ^ 27 + (1 / 2 ^ 27)\<^sup>2"
      by (simp add: ym power2_diff)
    moreover have "0 \<le> (1 / (2::real) ^ 27)\<^sup>2" by simp
    ultimately have "(real_of_int s)\<^sup>2 - 1 \<le> y\<^sup>2" by linarith
    moreover have "d \<le> s * s - 1" using ds by simp
    then have "real_of_int d \<le> real_of_int (s * s - 1)" by (simp only: of_int_le_iff)
    then have "real_of_int d \<le> (real_of_int s)\<^sup>2 - 1" by (simp add: power2_eq_square)
    ultimately have "real_of_int d \<le> y\<^sup>2" by linarith
    then have "sqrt (real_of_int d) \<le> y" using y0 by (rule real_le_lsqrt[rotated 1])
    then have "round64 (sqrt (real_of_int d)) \<le> y"
      unfolding y_def using mb by (rule round64_upper) simp
    moreover have "y < real_of_int s" by (simp add: ym)
    ultimately show "round64 (sqrt (real_of_int d)) < real_of_int s" by linarith
  qed
  then show ?thesis by (simp only: rd rs)
qed

lemma truncInt_of_int [simp]: "truncInt (real_of_int n) = n"
  by (simp add: truncInt_def)

lemma intOfFloat_truncInt:
  "- (2 ^ 63) \<le> f \<Longrightarrow> f < 2 ^ 63 \<Longrightarrow> intOfFloat f = truncInt f"
proof -
  assume a: "- (2 ^ 63) \<le> f" "f < 2 ^ 63"
  have "real_of_int (- (2 ^ 63)) \<le> f" using a(1) by simp
  then have 1: "- (2 ^ 63) \<le> \<lfloor>f\<rfloor>" by (simp only: le_floor_iff)
  have "\<lfloor>f\<rfloor> \<le> \<lceil>f\<rceil>" by (rule floor_le_ceiling)
  with 1 have 2: "- (2 ^ 63) \<le> \<lceil>f\<rceil>" by linarith
  have "f < real_of_int (2 ^ 63)" using a(2) by simp
  then have 3: "\<lfloor>f\<rfloor> < 2 ^ 63" by (simp only: floor_less_iff)
  have 4: "f < 0 \<Longrightarrow> \<lceil>f\<rceil> < 2 ^ 63"
  proof -
    assume "f < 0"
    then have "f \<le> real_of_int 0" by simp
    then have "\<lceil>f\<rceil> \<le> 0" by (simp only: ceiling_le_iff)
    moreover have "(0::int) < 2 ^ 63" by simp
    ultimately show ?thesis by linarith
  qed
  show ?thesis using 1 2 3 4 by (auto simp: intOfFloat_def truncInt_def)
qed

section \<open>Properties of the classification\<close>

lemma getCellType_range: "getCellType x y circles \<in> {0, 1, 2}"
  by (induction circles) auto

lemma isCenter_self: "isCenter (Circle.X c) (Circle.Y c) c"
  by (simp add: isCenter_def sub64_def wrap64_def)

lemma getCellType_first:
  "i < length cs \<Longrightarrow> isCenter x y (cs ! i) \<Longrightarrow>
   \<forall>j<i. isCenter x y (cs ! j) \<or> \<not> withinRadius x y (cs ! j) \<Longrightarrow> getCellType x y cs = 2"
proof (induction cs arbitrary: i)
  case Nil
  then show ?case by simp
next
  case (Cons c cs)
  show ?case
  proof (cases i)
    case 0
    with Cons.prems show ?thesis by simp
  next
    case (Suc k)
    with Cons.prems have head: "isCenter x y c \<or> \<not> withinRadius x y c" by auto
    have "\<forall>j<k. isCenter x y (cs ! j) \<or> \<not> withinRadius x y (cs ! j)"
    proof (intro allI impI)
      fix j assume "j < k"
      then have "Suc j < i" using Suc by simp
      with Cons.prems(3)
      have "isCenter x y ((c # cs) ! Suc j) \<or> \<not> withinRadius x y ((c # cs) ! Suc j)" by blast
      then show "isCenter x y (cs ! j) \<or> \<not> withinRadius x y (cs ! j)" by simp
    qed
    then have "getCellType x y cs = 2"
      using Cons.IH[of k] Cons.prems Suc by auto
    with head show ?thesis by auto
  qed
qed

text \<open>
  C3, as the code has it.  \<^verbatim>\<open>getCellType\<close> always returns one of 0 (exterior),
  1 (interior) and 2 (centre).  A coordinate that is the centre of the circle at
  position \<open>i\<close> of the slice is classified as centre provided every circle before
  position \<open>i\<close> either has the same centre or does not hold the coordinate within
  its radius: the first circle that matches decides.
\<close>

theorem getCellType_first_match:
  "getCellType x y circles \<in> {0, 1, 2} \<and>
   (\<forall>i<length circles.
      Circle.X (circles ! i) = x \<and> Circle.Y (circles ! i) = y \<and>
      (\<forall>j<i. isCenter x y (circles ! j) \<or> \<not> withinRadius x y (circles ! j))
      \<longrightarrow> getCellType x y circles = 2)"
proof -
  have "getCellType x y circles = 2"
    if "i < length circles" "Circle.X (circles ! i) = x" "Circle.Y (circles ! i) = y"
       "\<forall>j<i. isCenter x y (circles ! j) \<or> \<not> withinRadius x y (circles ! j)" for i
  proof -
    have "isCenter x y (circles ! i)" using isCenter_self[of "circles ! i"] that(2,3) by simp
    then show ?thesis using getCellType_first[OF that(1) _ that(4)] by simp
  qed
  then show ?thesis using getCellType_range by blast
qed

theorem getCellType_first_match_witness:
  "getCellType 1 1
     [\<lparr>Circle.X = 9, Circle.Y = 9, Radius = 1, Type = ''spawn''\<rparr>,
      \<lparr>Circle.X = 1, Circle.Y = 1, Radius = 1, Type = ''spawn''\<rparr>,
      \<lparr>Circle.X = 0, Circle.Y = 0, Radius = 5, Type = ''bedroom''\<rparr>] = 2"
proof -
  let ?cs = "[\<lparr>Circle.X = 9, Circle.Y = 9, Radius = 1, Type = ''spawn''\<rparr>,
      \<lparr>Circle.X = 1, Circle.Y = 1, Radius = 1, Type = ''spawn''\<rparr>,
      \<lparr>Circle.X = 0, Circle.Y = 0, Radius = 5, Type = ''bedroom''\<rparr>]"
  have w: "\<not> withinRadius 1 1 (?cs ! 0)"
    by (simp add: withinRadius_def sub64_def add64_def mul64_def wrap64_def)
  have pre: "\<forall>j<(1::nat). isCenter 1 1 (?cs ! j) \<or> \<not> withinRadius 1 1 (?cs ! j)"
    using w by (auto simp del: nth_Cons_0)
  have len: "(1::nat) < length ?cs" by simp
  have c: "Circle.X (?cs ! 1) = 1 \<and> Circle.Y (?cs ! 1) = 1" by simp
  from getCellType_first_match[of 1 1 ?cs] have
    "\<forall>i<length ?cs. Circle.X (?cs ! i) = 1 \<and> Circle.Y (?cs ! i) = 1 \<and>
      (\<forall>j<i. isCenter 1 1 (?cs ! j) \<or> \<not> withinRadius 1 1 (?cs ! j))
      \<longrightarrow> getCellType 1 1 ?cs = 2" by (rule conjunct2)
  then have "Circle.X (?cs ! 1) = 1 \<and> Circle.Y (?cs ! 1) = 1 \<and>
      (\<forall>j<1. isCenter 1 1 (?cs ! j) \<or> \<not> withinRadius 1 1 (?cs ! j))
      \<longrightarrow> getCellType 1 1 ?cs = 2" using len by blast
  then show ?thesis using c pre by blast
qed

text \<open>
  The claim as written fails when the circle that holds the coordinate within its
  radius comes first in the slice: \<open>(1, 1)\<close> is the centre of the second circle and is
  classified as interior (1) of the first.
\<close>

theorem getCellType_center_shadowed:
  "getCellType 1 1
     [\<lparr>Circle.X = 0, Circle.Y = 0, Radius = 5, Type = ''spawn''\<rparr>,
      \<lparr>Circle.X = 1, Circle.Y = 1, Radius = 1, Type = ''spawn''\<rparr>] = 1"
  by (simp add: isCenter_def withinRadius_def sub64_def add64_def mul64_def wrap64_def)

section \<open>Properties of the migration step\<close>

text \<open>A coordinate of the grid.\<close>

definition inBounds :: "Config \<Rightarrow> coord \<Rightarrow> bool" where
  "inBounds cfg k \<longleftrightarrow> 0 \<le> fst k \<and> fst k < Width cfg \<and> 0 \<le> snd k \<and> snd k < Height cfg"

lemma set_gridCoords: "set (gridCoords cfg) = {k. inBounds cfg k}"
  by (auto simp: gridCoords_def inBounds_def)

lemma distinct_gridCoords: "distinct (gridCoords cfg)"
proof (cases "0 < Width cfg")
  case True
  then have ne: "[0..Width cfg - 1] \<noteq> []" by simp
  have "inj_on (\<lambda>y. map (\<lambda>x. (x, y)) [0..Width cfg - 1]) (set [0..Height cfg - 1])"
  proof (rule inj_onI)
    fix a b assume "map (\<lambda>x. (x, a)) [0..Width cfg - 1] = map (\<lambda>x. (x, b)) [0..Width cfg - 1]"
    then show "a = b" using True by auto
  qed
  then have "distinct (map (\<lambda>y. map (\<lambda>x. (x, y)) [0..Width cfg - 1]) [0..Height cfg - 1])"
    by (simp add: distinct_map)
  then show ?thesis
    unfolding gridCoords_def
    by (rule distinct_concat) (auto simp: distinct_map inj_on_def)
next
  case False
  then have e: "[0..Width cfg - 1] = []" by simp
  have c: "concat (map (\<lambda>y. []) ys) = ([] :: coord list)" for ys :: "int list"
    by (induction ys) auto
  show ?thesis by (simp add: gridCoords_def e c)
qed

lemma getNeighbors_inBounds: "k \<in> set (getNeighbors x y cfg) \<Longrightarrow> inBounds cfg k"
  by (auto simp: getNeighbors_def inBounds_def)

lemma Intn_pos: "0 < n \<Longrightarrow> \<exists>j g'. Intn n g = Inr (j, g') \<and> 0 \<le> j \<and> j < n"
  by (auto simp: Intn_def split: prod.splits)

lemma shuffle_perm:
  "i < length ns \<Longrightarrow> \<exists>ns' g'. shuffle i ns g = Inr (ns', g') \<and> mset ns' = mset ns"
proof (induction i arbitrary: ns g)
  case 0 then show ?case by simp
next
  case (Suc i)
  obtain j g1 where j: "Intn (int (Suc i) + 1) g = Inr (j, g1)" "0 \<le> j" "j < int (Suc i) + 1"
    using Intn_pos[of "int (Suc i) + 1" g] by auto
  let ?ns = "ns[Suc i := ns ! nat j, nat j := ns ! Suc i]"
  have len: "nat j < length ns" using j Suc.prems by linarith
  have m: "mset ?ns = mset ns"
    using mset_swap[of "nat j" ns "Suc i"] len Suc.prems by simp
  have "i < length ?ns" using Suc.prems by simp
  from Suc.IH[OF this, of g1] obtain ns' g' where
    "shuffle i ?ns g1 = Inr (ns', g')" "mset ns' = mset ?ns" by blast
  with j m show ?case by simp
qed

lemma shuffle_neighbors:
  "\<exists>ns' g'. shuffle (length ns - 1) ns g = Inr (ns', g') \<and> mset ns' = mset ns"
proof (cases ns)
  case Nil then show ?thesis by simp
next
  case (Cons a as)
  then show ?thesis using shuffle_perm[of "length ns - 1" ns g] by simp
qed

text \<open>The tokens held by the accumulator over the grid, as a multiset.\<close>

definition tokens :: "Config \<Rightarrow> grid \<Rightarrow> int multiset" where
  "tokens cfg m = mset (concat (map (lookup m) (gridCoords cfg)))"

lemma lookup_appendTo: "lookup (appendTo m k v) k' = (if k' = k then lookup m k @ [v] else lookup m k')"
  by (simp add: lookup_def appendTo_def)

lemma mset_concat_appendTo:
  "distinct ks \<Longrightarrow> mset (concat (map (lookup (appendTo m k v)) ks)) =
     mset (concat (map (lookup m) ks)) + (if k \<in> set ks then {#v#} else {#})"
  by (induction ks) (auto simp: lookup_appendTo)

lemma tokens_appendTo:
  "inBounds cfg k \<Longrightarrow> tokens cfg (appendTo m k v) = tokens cfg m + {#v#}"
  by (simp add: tokens_def mset_concat_appendTo distinct_gridCoords set_gridCoords)

lemma scanNeighbors_tokens:
  "scanNeighbors circles m v ns = Some m' \<Longrightarrow> \<forall>k\<in>set ns. inBounds cfg k \<Longrightarrow>
     tokens cfg m' = tokens cfg m + {#v#}"
  by (induction ns) (auto simp: tokens_appendTo split: if_splits)

lemma moveToken_tokens:
  assumes "inBounds cfg pos" "0 \<le> v" "speeds \<noteq> []"
  shows "\<exists>m' g'. moveToken cfg circles speeds pos v (m, g) = Inr (m', g') \<and>
            tokens cfg m' = tokens cfg m + {#v#}"
proof -
  obtain u g1 where u: "Float64 g = (u, g1)" by (cases "Float64 g")
  obtain ns' g2 where sh: "shuffle (length (getNeighbors (fst pos) (snd pos) cfg) - 1)
      (getNeighbors (fst pos) (snd pos) cfg) g1 = Inr (ns', g2)"
     "mset ns' = mset (getNeighbors (fst pos) (snd pos) cfg)"
    using shuffle_neighbors by blast
  have "set ns' = set (getNeighbors (fst pos) (snd pos) cfg)"
    using sh(2) by (metis set_mset_mset)
  then have nb: "\<forall>k\<in>set ns'. inBounds cfg k" using getNeighbors_inBounds by blast
  have idx: "\<not> ((if v \<ge> int (length speeds) then 0 else v) < 0 \<or>
              (if v \<ge> int (length speeds) then 0 else v) \<ge> int (length speeds))"
    using assms by auto
  show ?thesis
    using u sh(1) nb idx assms(1)
    by (auto simp: moveToken_def Let_def tokens_appendTo scanNeighbors_tokens
             split: option.splits)
qed


text \<open>
  A cell of a population is well placed when its coordinate lies on the grid and
  its tokens are type indices, that is, not negative.
\<close>

definition wellPlaced :: "Config \<Rightarrow> Cell \<Rightarrow> bool" where
  "wellPlaced cfg cell \<longleftrightarrow> inBounds cfg (Cell.X cell, Cell.Y cell) \<and> (\<forall>v\<in>set (Vals cell). 0 \<le> v)"

definition tokensOf :: "Cell list \<Rightarrow> int multiset" where
  "tokensOf cells = mset (concat (map Vals cells))"

lemma moveVals_tokens:
  assumes "inBounds cfg pos" "\<forall>v\<in>set vs. 0 \<le> v" "speeds \<noteq> []"
  shows "\<exists>m' g'. moveVals cfg circles speeds pos vs (m, g) = Inr (m', g') \<and>
            tokens cfg m' = tokens cfg m + mset vs"
  using assms
proof (induction vs arbitrary: m g)
  case Nil then show ?case by simp
next
  case (Cons v vs)
  obtain m1 g1 where 1: "moveToken cfg circles speeds pos v (m, g) = Inr (m1, g1)"
     "tokens cfg m1 = tokens cfg m + {#v#}"
    using moveToken_tokens[of cfg pos v speeds circles m g] Cons.prems by auto
  obtain m2 g2 where 2: "moveVals cfg circles speeds pos vs (m1, g1) = Inr (m2, g2)"
     "tokens cfg m2 = tokens cfg m1 + mset vs"
    using Cons.IH[of m1 g1] Cons.prems by auto
  show ?case using 1 2 by simp
qed

lemma moveCells_tokens:
  assumes "\<forall>c\<in>set cells. wellPlaced cfg c" "speeds \<noteq> []"
  shows "\<exists>m' g'. moveCells cfg circles speeds cells (m, g) = Inr (m', g') \<and>
            tokens cfg m' = tokens cfg m + tokensOf cells"
  using assms
proof (induction cells arbitrary: m g)
  case Nil then show ?case by (simp add: tokensOf_def)
next
  case (Cons c cells)
  obtain m1 g1 where 1: "moveVals cfg circles speeds (Cell.X c, Cell.Y c) (Vals c) (m, g) = Inr (m1, g1)"
     "tokens cfg m1 = tokens cfg m + mset (Vals c)"
    using moveVals_tokens[of cfg "(Cell.X c, Cell.Y c)" "Vals c" speeds circles m g] Cons.prems
    by (auto simp: wellPlaced_def)
  obtain m2 g2 where 2: "moveCells cfg circles speeds cells (m1, g1) = Inr (m2, g2)"
     "tokens cfg m2 = tokens cfg m1 + tokensOf cells"
    using Cons.IH[of m1 g1] Cons.prems by auto
  show ?case using 1 2 by (simp add: tokensOf_def)
qed

lemma lookup_fold_init: "lookup (fold (\<lambda>k m. m(k \<mapsto> [])) ks m0) k = (if k \<in> set ks then [] else lookup m0 k)"
  by (induction ks arbitrary: m0) (auto simp: lookup_def)

lemma lookup_initState: "lookup (initState cfg) k = []"
  unfolding initState_def lookup_fold_init by (simp add: lookup_def)

lemma tokens_initState: "tokens cfg (initState cfg) = {#}"
  by (simp add: tokens_def lookup_initState)

lemma tokensOf_collect_aux:
  "mset (concat (map Vals (concat (map (\<lambda>(x, y). if lookup m (x, y) \<noteq> []
         then [\<lparr>Cell.X = x, Cell.Y = y, Vals = lookup m (x, y)\<rparr>] else []) ks)))) =
   mset (concat (map (lookup m) ks))"
  by (induction ks) auto

lemma tokensOf_collectCells: "tokensOf (collectCells cfg m) = tokens cfg m"
  by (simp add: tokensOf_def collectCells_def tokens_def tokensOf_collect_aux)






lemma prefix_lookup_appendTo: "prefix (lookup m k) (lookup (appendTo m n v) k)"
  by (simp add: lookup_appendTo)








text \<open>
  C6.  With an empty speed table \<^verbatim>\<open>moveNumbers\<close> returns its input population as it
  is, and draws nothing from the random source.
\<close>

theorem moveNumbers_empty_speeds: "moveNumbers cfg circles cells [] g = Inr (cells, g)"
  by (simp add: moveNumbers_def)

text \<open>
  C2, as the code has it.  For a population whose cells all lie on the grid and
  whose tokens are not negative, \<^verbatim>\<open>moveNumbers\<close> returns (for every speed table and
  every random source) a population that holds the same tokens with the same
  multiplicities.
\<close>

theorem moveNumbers_conserves:
  assumes "\<forall>c\<in>set cells. wellPlaced cfg c"
  shows "\<exists>out g'. moveNumbers cfg circles cells speeds g = Inr (out, g') \<and> tokensOf out = tokensOf cells"
proof (cases "speeds = []")
  case True then show ?thesis by (simp add: moveNumbers_def)
next
  case False
  obtain m' g' where "moveCells cfg circles speeds cells (initState cfg, g) = Inr (m', g')"
    "tokens cfg m' = tokens cfg (initState cfg) + tokensOf cells"
    using moveCells_tokens[OF assms False] by blast
  with False show ?thesis
    by (simp add: moveNumbers_def tokensOf_collectCells tokens_initState)
qed

theorem moveNumbers_conserves_witness:
  "wellPlaced \<lparr>Width = 2, Height = 1, Spawns = 0, Bedrooms = 0, SpawnR = 0, BedroomR = 0, MaxGap = 0\<rparr>
     \<lparr>Cell.X = 0, Cell.Y = 0, Vals = [0, 0]\<rparr> \<and>
   wellPlaced \<lparr>Width = 2, Height = 1, Spawns = 0, Bedrooms = 0, SpawnR = 0, BedroomR = 0, MaxGap = 0\<rparr>
     \<lparr>Cell.X = 1, Cell.Y = 0, Vals = [1, 1]\<rparr> \<and>
   (\<exists>out g'.
      moveNumbers \<lparr>Width = 2, Height = 1, Spawns = 0, Bedrooms = 0, SpawnR = 0, BedroomR = 0, MaxGap = 0\<rparr> []
        [\<lparr>Cell.X = 0, Cell.Y = 0, Vals = [0, 0]\<rparr>, \<lparr>Cell.X = 1, Cell.Y = 0, Vals = [1, 1]\<rparr>]
        [100, 0] [] = Inr (out, g') \<and>
      tokensOf out = tokensOf [\<lparr>Cell.X = 0, Cell.Y = 0, Vals = [0, 0]\<rparr>, \<lparr>Cell.X = 1, Cell.Y = 0, Vals = [1, 1]\<rparr>])"
proof -
  let ?cfg = "\<lparr>Width = 2, Height = 1, Spawns = 0, Bedrooms = 0, SpawnR = 0, BedroomR = 0, MaxGap = 0\<rparr>"
  let ?cells = "[\<lparr>Cell.X = 0, Cell.Y = 0, Vals = [0, 0]\<rparr>, \<lparr>Cell.X = 1, Cell.Y = 0, Vals = [1, 1]\<rparr>]"
  have h: "\<forall>c\<in>set ?cells. wellPlaced ?cfg c"
    by (simp add: wellPlaced_def inBounds_def)
  show ?thesis
    using h moveNumbers_conserves[OF h, of "[]" "[100, 0]" "[]"] by simp
qed

text \<open>
  The claim as written, for every input population, fails for a cell outside the
  grid: its token stays at its own key of the accumulator, and the result is read
  off the grid coordinates only.  One token goes in, none comes out.
\<close>

theorem moveNumbers_drops_outside_token:
  "moveNumbers \<lparr>Width = 1, Height = 1, Spawns = 0, Bedrooms = 0, SpawnR = 0, BedroomR = 0, MaxGap = 0\<rparr> []
     [\<lparr>Cell.X = 5, Cell.Y = 5, Vals = [0]\<rparr>] [0] [] = Inr ([], []) \<and>
   size (tokensOf [\<lparr>Cell.X = 5, Cell.Y = 5, Vals = [0]\<rparr>]) = 1 \<and>
   size (tokensOf []) = 0"
  by (simp add: moveNumbers_def moveToken_def Float64_def initState_def gridCoords_def
      collectCells_def lookup_def appendTo_def tokensOf_def upto.simps)




section \<open>Properties of the selector\<close>

lemma count_selector_aux:
  "count_list (concat (map (\<lambda>(idx, p). replicate (nat (intOfFloat (round64 (p * 50)))) (int idx))
                 (enumerate n ps))) (int j)
     = (if n \<le> j \<and> j < n + length ps then nat (intOfFloat (round64 (ps ! (j - n) * 50))) else 0)"
proof (induction ps arbitrary: n)
  case Nil then show ?case by simp
next
  case (Cons p ps)
  have r: "count_list (replicate k (int n)) (int j) = (if j = n then k else 0)" for k
    by (induction k) auto
  show ?case
    using Cons.IH[of "Suc n"] by (auto simp: r nth_Cons')
qed

lemma count_selector:
  "i < length ps \<Longrightarrow>
   count_list (createProbabilitySelector ps) (int i) = nat (intOfFloat (round64 (ps ! i * 50)))"
  by (simp add: createProbabilitySelector_def count_selector_aux)

lemma selector_empty_aux:
  "\<forall>p\<in>set ps. intOfFloat (round64 (p * 50)) \<le> 0 \<Longrightarrow>
   concat (map (\<lambda>(idx, p). replicate (nat (intOfFloat (round64 (p * 50)))) (int idx)) (enumerate n ps)) = []"
  by (induction ps arbitrary: n) auto

lemma selector_empty:
  "\<forall>p\<in>set ps. intOfFloat (round64 (p * 50)) \<le> 0 \<Longrightarrow> createProbabilitySelector ps = []"
  by (simp add: createProbabilitySelector_def selector_empty_aux)

text \<open>The products of the probabilities used in the examples below.\<close>

lemma count_half: "intOfFloat (round64 25) = 25"
proof -
  have "round64 (real_of_int 25) = real_of_int 25" by (rule round64_of_int) simp
  then have "round64 25 = real_of_int 25" by simp
  then show ?thesis by (simp only: intOfFloat_def truncInt_of_int) simp
qed

lemma count_quarter: "intOfFloat (round64 (25 / 2)) = 12"
proof -
  have e: "(25 / 2 :: real) = real_of_int 25 * 2 powi (- 1)" by simp
  have r: "round64 (real_of_int 25 * 2 powi (- 1)) = real_of_int 25 * 2 powi (- 1)"
    by (rule round64_exact) simp_all
  have t: "truncInt (real_of_int 25 * 2 powi (- 1)) = 12" by (simp add: truncInt_def)
  show ?thesis unfolding e r by (simp only: intOfFloat_def t) simp
qed

lemma count_zero: "intOfFloat 0 = 0"
  by (simp add: intOfFloat_def truncInt_def)

section \<open>Properties of the initial distribution\<close>



















section \<open>The selector contract\<close>

text \<open>
  C8, as the code has it.  The selector holds the index \<open>i\<close> exactly
  \<open>int(probabilities[i] * 50)\<close> times (not at all when that count is not positive),
  where the product is the \<^verbatim>\<open>float64\<close> product, rounded to nearest, and the
  conversion drops its fractional part (first part, for probabilities of absolute
  value up to \<open>2^57\<close>, whose product is in the range of \<^verbatim>\<open>int\<close>).  For a probability
  \<open>p\<close> from 0 to \<open>2^47\<close> the count is therefore the whole part of \<open>50 * p\<close>, or one
  more when the product is rounded up to the next whole number (second part).
  When every probability is zero, or the vector is empty, the selector is empty
  and \<^verbatim>\<open>generateDistribution\<close> returns the empty population (third part).
\<close>

theorem selector_counts:
  "(\<forall>i<length probabilities. \<bar>probabilities ! i\<bar> \<le> 2 ^ 57 \<longrightarrow>
      count_list (createProbabilitySelector probabilities) (int i) =
        nat (truncInt (round64 (probabilities ! i * 50)))) \<and>
   (\<forall>i<length probabilities. 0 \<le> probabilities ! i \<and> probabilities ! i \<le> 2 ^ 47 \<longrightarrow>
      nat \<lfloor>probabilities ! i * 50\<rfloor> \<le> count_list (createProbabilitySelector probabilities) (int i) \<and>
      count_list (createProbabilitySelector probabilities) (int i) \<le> nat \<lfloor>probabilities ! i * 50\<rfloor> + 1) \<and>
   ((\<forall>p\<in>set probabilities. p = 0) \<longrightarrow>
      createProbabilitySelector probabilities = [] \<and>
      generateDistribution cfg circles probabilities g = Inr ([], g))"
proof (intro conjI allI impI)
  fix i
  assume i: "i < length probabilities" and b: "\<bar>probabilities ! i\<bar> \<le> 2 ^ 57"
  define x where "x = probabilities ! i * 50"
  have "x \<le> real_of_int 25 * 2 powi 58" using b by (simp add: x_def abs_le_iff)
  then have "round64 x \<le> real_of_int 25 * 2 powi 58" by (rule round64_upper) simp_all
  then have hi: "round64 x < 2 ^ 63" by simp
  have "real_of_int (- 25) * 2 powi 58 \<le> x" using b by (simp add: x_def abs_le_iff)
  then have "real_of_int (- 25) * 2 powi 58 \<le> round64 x" by (rule round64_lower) simp_all
  then have lo: "- (2 ^ 63) \<le> round64 x" by simp
  show "count_list (createProbabilitySelector probabilities) (int i) =
          nat (truncInt (round64 (probabilities ! i * 50)))"
    using count_selector[OF i] intOfFloat_truncInt[OF lo hi] by (simp add: x_def)
next
  fix i
  assume i: "i < length probabilities"
    and b: "0 \<le> probabilities ! i \<and> probabilities ! i \<le> 2 ^ 47"
  define x where "x = probabilities ! i * 50"
  define n where "n = \<lfloor>x\<rfloor>"
  have x0: "0 \<le> x" and x1: "x \<le> 50 * 2 ^ 47" using b by (simp_all add: x_def)
  have n0: "0 \<le> n" using x0 by (simp add: n_def)
  have "x \<le> real_of_int (50 * 2 ^ 47)" using x1 by simp
  then have "\<lfloor>x\<rfloor> \<le> \<lfloor>real_of_int (50 * 2 ^ 47)\<rfloor>" by (rule floor_mono)
  then have n1: "n \<le> 50 * 2 ^ 47" unfolding n_def by (simp only: floor_of_int)
  have nx: "real_of_int n \<le> x" and xn: "x \<le> real_of_int (n + 1)"
    unfolding n_def by linarith+
  have an: "\<bar>n\<bar> \<le> 2 ^ 53" and an1: "\<bar>n + 1\<bar> \<le> 2 ^ 53" using n0 n1 by simp_all
  have lo: "real_of_int n \<le> round64 x" using an nx by (rule round64_ge_int)
  have hi: "round64 x \<le> real_of_int (n + 1)" using an1 xn by (rule round64_le_int)
  have r0: "0 \<le> round64 x" using x0 by (rule round64_nonneg)
  have "real_of_int (n + 1) < 2 ^ 63" using n1 by simp
  with hi have r63: "round64 x < 2 ^ 63" by linarith
  have "- (2 ^ 63) \<le> (0::real)" by simp
  with r0 have rm: "- (2 ^ 63) \<le> round64 x" by linarith
  have t: "intOfFloat (round64 x) = \<lfloor>round64 x\<rfloor>"
    using intOfFloat_truncInt[OF rm r63] r0 by (simp add: truncInt_def)
  have f1: "n \<le> \<lfloor>round64 x\<rfloor>" using lo by (simp only: le_floor_iff)
  have "\<lfloor>round64 x\<rfloor> \<le> \<lfloor>real_of_int (n + 1)\<rfloor>" using hi by (rule floor_mono)
  then have f2: "\<lfloor>round64 x\<rfloor> \<le> n + 1" by (simp only: floor_of_int)
  have c: "count_list (createProbabilitySelector probabilities) (int i) = nat \<lfloor>round64 x\<rfloor>"
    using count_selector[OF i] t by (simp add: x_def)
  show "nat \<lfloor>probabilities ! i * 50\<rfloor> \<le> count_list (createProbabilitySelector probabilities) (int i)"
    using f1 unfolding c by (simp add: x_def n_def nat_mono)
  show "count_list (createProbabilitySelector probabilities) (int i) \<le> nat \<lfloor>probabilities ! i * 50\<rfloor> + 1"
    using f2 n0 unfolding c by (simp add: x_def n_def nat_le_iff)
next
  assume z: "\<forall>p\<in>set probabilities. p = 0"
  have "intOfFloat (round64 (p * 50)) \<le> 0" if "p \<in> set probabilities" for p
  proof -
    from z that have "p = 0" by blast
    then show ?thesis by (simp add: count_zero)
  qed
  then have "\<forall>p\<in>set probabilities. intOfFloat (round64 (p * 50)) \<le> 0" by blast
  then show e: "createProbabilitySelector probabilities = []" by (rule selector_empty)
  then show "generateDistribution cfg circles probabilities g = Inr ([], g)"
    by (simp add: generateDistribution_def)
qed

text \<open>
  The \<^verbatim>\<open>float64\<close> nearest to 0.3 is \<open>5404319552844595 / 2^54\<close>, a little below 0.3; its
  product with 50 is rounded up to 15.
\<close>

lemma round64_three_tenths: "round64 (5404319552844595 / 18014398509481984 * 50) = 15"
  by (subst round64_eval[where q = "- 49"]) (simp_all add: roundEven_def)

theorem selector_counts_witness:
  "\<bar>[1 / 2, 5404319552844595 / 18014398509481984] ! 1\<bar> \<le> (2::real) ^ 57 \<and>
   count_list (createProbabilitySelector [1 / 2, 5404319552844595 / 18014398509481984]) (int 1) = 15 \<and>
   nat \<lfloor>[1 / 2, 5404319552844595 / 18014398509481984] ! 1 * (50::real)\<rfloor> = 14 \<and>
   createProbabilitySelector [0, 0] = [] \<and>
   generateDistribution
     \<lparr>Width = 2, Height = 1, Spawns = 0, Bedrooms = 0, SpawnR = 0, BedroomR = 0, MaxGap = 0\<rparr>
     [] [0, 0] [5] = Inr ([], [5])"
proof -
  let ?ps = "[1 / 2, 5404319552844595 / (18014398509481984::real)]"
  have l: "(1::nat) < length ?ps" by simp
  have h: "\<bar>?ps ! 1\<bar> \<le> 2 ^ 57" by simp
  from selector_counts[of ?ps] l h
  have "count_list (createProbabilitySelector ?ps) (int 1) = nat (truncInt (round64 (?ps ! 1 * 50)))"
    by blast
  moreover have "?ps ! 1 * 50 = 5404319552844595 / 18014398509481984 * (50::real)" by simp
  ultimately have a: "count_list (createProbabilitySelector ?ps) (int 1) = 15"
    by (simp only: round64_three_tenths) (simp add: truncInt_def)
  have f: "nat \<lfloor>?ps ! 1 * (50::real)\<rfloor> = 14" by simp
  have "\<forall>p\<in>set [0, 0::real]. p = 0" by simp
  with selector_counts[of "[0, 0]"
      "\<lparr>Width = 2, Height = 1, Spawns = 0, Bedrooms = 0, SpawnR = 0, BedroomR = 0, MaxGap = 0\<rparr>" "[]" "[5]"]
  have b: "createProbabilitySelector [0, 0] = [] \<and>
     generateDistribution
       \<lparr>Width = 2, Height = 1, Spawns = 0, Bedrooms = 0, SpawnR = 0, BedroomR = 0, MaxGap = 0\<rparr>
       [] [0, 0] [5] = Inr ([], [5])" by blast
  show ?thesis using h a f b by blast
qed

text \<open>
  The weights are not proportional to the probabilities in general: for the
  probabilities 1/2 and 1/4 the selector holds 25 and 12 entries.
\<close>

theorem selector_not_proportional:
  "count_list (createProbabilitySelector [1 / 2, 1 / 4]) 0 = 25 \<and>
   count_list (createProbabilitySelector [1 / 2, 1 / 4]) 1 = 12 \<and>
   real (count_list (createProbabilitySelector [1 / 2, 1 / 4]) 0) * (1 / 4) \<noteq>
   real (count_list (createProbabilitySelector [1 / 2, 1 / 4]) 1) * (1 / 2)"
proof -
  have 0: "count_list (createProbabilitySelector [1 / 2, 1 / 4]) (int 0) = 25"
    by (subst count_selector) (simp_all add: count_half)
  have 1: "count_list (createProbabilitySelector [1 / 2, 1 / 4]) (int 1) = 12"
    by (subst count_selector) (simp_all add: count_quarter)
  show ?thesis using 0 1 by simp
qed

section \<open>The capacity limits after a migration step\<close>

text \<open>
  C1 does not hold of the code.  On the grid of width 2 and height 1 without
  circles both cells are exterior (limit 2).  \<^verbatim>\<open>generateDistribution\<close> can give
  each cell two tokens, types 0 and 0 on the left and 1 and 1 on the right.  With
  the speeds 100 for type 0 and 0 for type 1 the two tokens on the left move to the
  right cell, which admits them as its next-state list is still empty; the two
  tokens on the right then stay and are appended to the same list with no test of
  its length.  The returned population holds four tokens on an exterior cell.
\<close>

theorem capacity_exceeded_after_move:
  "generateDistribution
     \<lparr>Width = 2, Height = 1, Spawns = 0, Bedrooms = 0, SpawnR = 0, BedroomR = 0, MaxGap = 0\<rparr>
     [] [1 / 2, 1 / 2] [1, 0, 0, 1, 25, 25] =
     Inr ([\<lparr>Cell.X = 0, Cell.Y = 0, Vals = [0, 0]\<rparr>, \<lparr>Cell.X = 1, Cell.Y = 0, Vals = [1, 1]\<rparr>], []) \<and>
   moveNumbers
     \<lparr>Width = 2, Height = 1, Spawns = 0, Bedrooms = 0, SpawnR = 0, BedroomR = 0, MaxGap = 0\<rparr>
     [] [\<lparr>Cell.X = 0, Cell.Y = 0, Vals = [0, 0]\<rparr>, \<lparr>Cell.X = 1, Cell.Y = 0, Vals = [1, 1]\<rparr>]
     [100, 0] [] =
     Inr ([\<lparr>Cell.X = 1, Cell.Y = 0, Vals = [0, 0, 1, 1]\<rparr>], []) \<and>
   getCellType 1 0 [] = 0"
proof -
  have sel: "createProbabilitySelector [1 / 2, 1 / 2] = replicate 25 0 @ replicate 25 1"
    by (simp add: createProbabilitySelector_def enumerate_eq_zip count_half upt_rec)
  have a: "generateDistribution
     \<lparr>Width = 2, Height = 1, Spawns = 0, Bedrooms = 0, SpawnR = 0, BedroomR = 0, MaxGap = 0\<rparr>
     [] [1 / 2, 1 / 2] [1, 0, 0, 1, 25, 25] =
     Inr ([\<lparr>Cell.X = 0, Cell.Y = 0, Vals = [0, 0]\<rparr>, \<lparr>Cell.X = 1, Cell.Y = 0, Vals = [1, 1]\<rparr>], [])"
    by (simp add: generateDistribution_def sel gridCoords_def cellVals_def drawOne_def Intn_def
        upto.simps nth_append numeral_2_eq_2)
  have b: "moveNumbers
     \<lparr>Width = 2, Height = 1, Spawns = 0, Bedrooms = 0, SpawnR = 0, BedroomR = 0, MaxGap = 0\<rparr>
     [] [\<lparr>Cell.X = 0, Cell.Y = 0, Vals = [0, 0]\<rparr>, \<lparr>Cell.X = 1, Cell.Y = 0, Vals = [1, 1]\<rparr>]
     [100, 0] [] =
     Inr ([\<lparr>Cell.X = 1, Cell.Y = 0, Vals = [0, 0, 1, 1]\<rparr>], [])"
    by (simp add: moveNumbers_def moveToken_def Float64_def Intn_def initState_def gridCoords_def
        collectCells_def lookup_def appendTo_def getNeighbors_def directions_def canMove_def
        add64_def wrap64_def upto.simps)
  show ?thesis using a b by simp
qed

section \<open>Properties of the circle packing\<close>

text \<open>
  A circle fits the bounds when centre minus radius and centre plus radius lie
  inside the rectangle on both axes.  Two circles are apart when the Euclidean
  distance of their centres is at least the sum of their radii, in exact
  arithmetic.  A configuration is sane when \<^verbatim>\<open>validateConfig\<close> accepts it and both
  radii are non-negative and small enough for twice the radius to be a machine
  integer.
\<close>

definition fits :: "Config \<Rightarrow> Circle \<Rightarrow> bool" where
  "fits cfg c \<longleftrightarrow>
     0 \<le> Circle.X c - Radius c \<and> Circle.X c - Radius c < Width cfg \<and>
     0 \<le> Circle.X c + Radius c \<and> Circle.X c + Radius c < Width cfg \<and>
     0 \<le> Circle.Y c - Radius c \<and> Circle.Y c - Radius c < Height cfg \<and>
     0 \<le> Circle.Y c + Radius c \<and> Circle.Y c + Radius c < Height cfg"

definition apart :: "Circle \<Rightarrow> Circle \<Rightarrow> bool" where
  "apart a b \<longleftrightarrow>
     real_of_int (Radius a + Radius b) \<le>
     sqrt (real_of_int ((Circle.X a - Circle.X b)\<^sup>2 + (Circle.Y a - Circle.Y b)\<^sup>2))"

definition radiusOK :: "int \<Rightarrow> bool" where
  "radiusOK r \<longleftrightarrow> 0 \<le> r \<and> r < 2 ^ 62"

definition saneConfig :: "Config \<Rightarrow> bool" where
  "saneConfig cfg \<longleftrightarrow>
     validateConfig cfg = None \<and> radiusOK (SpawnR cfg) \<and> radiusOK (BedroomR cfg)"

text \<open>
  The invariant of the generator: every placed circle has a radius in that range
  and a centre at least the radius away from every side, and the circles are
  pairwise apart.
\<close>

definition snug :: "Config \<Rightarrow> Circle \<Rightarrow> bool" where
  "snug cfg c \<longleftrightarrow>
     radiusOK (Radius c) \<and>
     Radius c \<le> Circle.X c \<and> Circle.X c < Width cfg - Radius c \<and>
     Radius c \<le> Circle.Y c \<and> Circle.Y c < Height cfg - Radius c"

definition inv :: "Config \<Rightarrow> MapGenerator \<Rightarrow> bool" where
  "inv cfg g \<longleftrightarrow>
     config g = cfg \<and> (\<forall>c\<in>set (getAllCircles g). snug cfg c) \<and> sorted_wrt apart (getAllCircles g)"

lemma wrap64_id: "- (2 ^ 63) \<le> z \<Longrightarrow> z < 2 ^ 63 \<Longrightarrow> wrap64 z = z"
  by (simp add: wrap64_def)

lemma saneConfig_bounds:
  "saneConfig cfg \<Longrightarrow> 1 \<le> Width cfg \<and> Width cfg \<le> 100 \<and> 1 \<le> Height cfg \<and> Height cfg \<le> 100"
  by (auto simp: saneConfig_def validateConfig_def split: if_splits)

lemma snug_fits: "snug cfg c \<Longrightarrow> fits cfg c"
  by (auto simp: snug_def fits_def radiusOK_def)

lemma apart_sym: "apart a b \<Longrightarrow> apart b a"
  by (simp add: apart_def power2_commute add.commute)

lemma uniformPosition_range:
  assumes "saneConfig (config g)" "radiusOK r" "uniformPosition g r rng = Inr ((x, y), rng')"
  shows "r \<le> x \<and> x < Width (config g) - r \<and> r \<le> y \<and> y < Height (config g) - r"
proof -
  note b = saneConfig_bounds[OF assms(1)]
  have r: "0 \<le> r" "r < 2 ^ 62" using assms(2) by (auto simp: radiusOK_def)
  have m: "mul64 2 r = 2 * r" using r by (simp add: mul64_def wrap64_id)
  have w: "sub64 (Width (config g)) (2 * r) = Width (config g) - 2 * r"
    using r b by (simp add: sub64_def wrap64_id)
  have h: "sub64 (Height (config g)) (2 * r) = Height (config g) - 2 * r"
    using r b by (simp add: sub64_def wrap64_id)
  from assms(3) obtain a rng1 b' where
    a: "Intn (Width (config g) - 2 * r) rng = Inr (a, rng1)"
    and b': "Intn (Height (config g) - 2 * r) rng1 = Inr (b', rng')"
    and xy: "x = add64 r a" "y = add64 r b'"
    by (auto simp: uniformPosition_def m w h split: sum.splits)
  from a have ar: "0 \<le> a" "a < Width (config g) - 2 * r"
    by (auto simp: Intn_def split: if_splits prod.splits)
  from b' have br: "0 \<le> b'" "b' < Height (config g) - 2 * r"
    by (auto simp: Intn_def split: if_splits prod.splits)
  have "add64 r a = r + a" using r ar b by (simp add: add64_def wrap64_id)
  moreover have "add64 r b' = r + b'" using r br b by (simp add: add64_def wrap64_id)
  ultimately show ?thesis using xy ar br by simp
qed

lemma nearbyLoop_range:
  assumes "saneConfig (config g)" "radiusOK r"
  shows "nearbyLoop g base r attempts rng = Inr ((x, y), rng') \<Longrightarrow>
         r \<le> x \<and> x < Width (config g) - r \<and> r \<le> y \<and> y < Height (config g) - r"
proof (induction n \<equiv> "nat (30 - attempts)" arbitrary: attempts rng)
  case 0
  then have "\<not> attempts < 30" by simp
  then have "nearbyLoop g base r attempts rng = uniformPosition g r rng"
    by (subst nearbyLoop.simps) simp
  with "0.prems" show ?case using uniformPosition_range[OF assms] by simp
next
  case (Suc n)
  note b = saneConfig_bounds[OF assms(1)]
  have r: "0 \<le> r" "r < 2 ^ 62" using assms(2) by (auto simp: radiusOK_def)
  have w: "sub64 (Width (config g)) r = Width (config g) - r"
    using r b by (simp add: sub64_def wrap64_id)
  have h: "sub64 (Height (config g)) r = Height (config g) - r"
    using r b by (simp add: sub64_def wrap64_id)
  have lt: "attempts < 30" using Suc.hyps(2) by linarith
  obtain a rng1 where a: "Float64 rng = (a, rng1)" by (cases "Float64 rng")
  obtain b' rng2 where b': "Float64 rng1 = (b', rng2)" by (cases "Float64 rng1")
  define minD where "minD = real_of_int (add64 (Radius base) r)"
  define dist where "dist = minD + b' * (minD + real_of_int (MaxGap (config g)) - minD)"
  define x' where "x' = truncInt (real_of_int (Circle.X base) + dist * cos (a * 2 * pi))"
  define y' where "y' = truncInt (real_of_int (Circle.Y base) + dist * sin (a * 2 * pi))"
  have step: "nearbyLoop g base r attempts rng =
      (if r \<le> x' \<and> x' < Width (config g) - r \<and> r \<le> y' \<and> y' < Height (config g) - r
       then Inr ((x', y'), rng2) else nearbyLoop g base r (attempts + 1) rng2)"
    by (subst nearbyLoop.simps) (simp add: lt a b' Let_def w h x'_def y'_def dist_def minD_def)
  show ?case
  proof (cases "r \<le> x' \<and> x' < Width (config g) - r \<and> r \<le> y' \<and> y' < Height (config g) - r")
    case True
    with step Suc.prems show ?thesis by auto
  next
    case False
    with step Suc.prems have "nearbyLoop g base r (attempts + 1) rng2 = Inr ((x, y), rng')" by simp
    moreover have "n = nat (30 - (attempts + 1))" using Suc.hyps(2) by linarith
    ultimately show ?thesis using Suc.hyps(1) by blast
  qed
qed

lemma propose_range:
  assumes "saneConfig (config g)" "radiusOK r" "propose g r rng = Inr ((x, y), rng')"
  shows "r \<le> x \<and> x < Width (config g) - r \<and> r \<le> y \<and> y < Height (config g) - r"
proof (cases "length (getAllCircles g) > 0")
  case True
  with assms(3) obtain k rng1 where
    "generateNearbyPosition g (getAllCircles g ! nat k) r rng1 = Inr ((x, y), rng')"
    by (auto simp: propose_def Let_def split: sum.splits)
  then show ?thesis using nearbyLoop_range[OF assms(1,2)] by (simp add: generateNearbyPosition_def)
next
  case False
  with assms(3) have "uniformPosition g r rng = Inr ((x, y), rng')"
    by (simp add: propose_def Let_def)
  then show ?thesis using uniformPosition_range[OF assms(1,2)] by simp
qed

lemma snug_Type [simp]: "snug cfg (c\<lparr>Type := t\<rparr>) = snug cfg c"
  by (simp add: snug_def)

lemma apart_Type [simp]: "apart (a\<lparr>Type := t\<rparr>) b = apart a b" "apart a (b\<lparr>Type := t\<rparr>) = apart a b"
  by (simp_all add: apart_def)

lemma overlaps_exact:
  assumes "saneConfig cfg" "snug cfg a" "snug cfg b"
  shows "overlaps a b \<longleftrightarrow> \<not> apart a b"
proof -
  note bd = saneConfig_bounds[OF assms(1)]
  have ra: "0 \<le> Radius a" "Radius a < 2 ^ 62" "0 \<le> Radius b" "Radius b < 2 ^ 62"
    using assms(2,3) by (auto simp: snug_def radiusOK_def)
  have xa: "0 \<le> Circle.X a" "Circle.X a < 100" "0 \<le> Circle.Y a" "Circle.Y a < 100"
    using assms(2) bd ra by (auto simp: snug_def)
  have xb: "0 \<le> Circle.X b" "Circle.X b < 100" "0 \<le> Circle.Y b" "Circle.Y b < 100"
    using assms(3) bd ra by (auto simp: snug_def)
  define dx where "dx = Circle.X a - Circle.X b"
  define dy where "dy = Circle.Y a - Circle.Y b"
  have dxr: "- 100 < dx" "dx < 100" "- 100 < dy" "dy < 100"
    using xa xb by (auto simp: dx_def dy_def)
  have sx: "sub64 (Circle.X a) (Circle.X b) = dx" "sub64 (Circle.Y a) (Circle.Y b) = dy"
    using dxr by (auto simp: sub64_def dx_def dy_def wrap64_id)
  have sq: "0 \<le> dx * dx" "dx * dx < 10000" "0 \<le> dy * dy" "dy * dy < 10000"
  proof -
    have "dx\<^sup>2 \<le> 99\<^sup>2"
      by (rule power2_le_iff_abs_le[THEN iffD2]) (use dxr in auto)
    moreover have "dy\<^sup>2 \<le> 99\<^sup>2"
      by (rule power2_le_iff_abs_le[THEN iffD2]) (use dxr in auto)
    ultimately
    show "dx * dx < 10000" "dy * dy < 10000" by (simp_all add: power2_eq_square)
  qed simp_all
  have lo: "- (2 ^ 63) \<le> dx * dx" "- (2 ^ 63) \<le> dy * dy" "- (2 ^ 63) \<le> dx * dx + dy * dy"
    by (rule order_trans[of _ 0], simp, simp)+
  have m: "mul64 dx dx = dx * dx" "mul64 dy dy = dy * dy"
    using sq lo by (auto simp: mul64_def wrap64_id)
  have d2: "add64 (dx * dx) (dy * dy) = dx\<^sup>2 + dy\<^sup>2"
    using sq lo by (simp add: add64_def wrap64_id power2_eq_square)
  have rs: "add64 (Radius a) (Radius b) = Radius a + Radius b"
    using ra by (simp add: add64_def wrap64_id)
  have nn: "0 \<le> dx\<^sup>2 + dy\<^sup>2" by simp
  have d53: "dx\<^sup>2 + dy\<^sup>2 \<le> 2 ^ 53" using sq by (simp add: power2_eq_square)
  have "Radius a < 100" "Radius b < 100" using assms(2,3) xa xb by (auto simp: snug_def)
  then have s26: "\<bar>Radius a + Radius b\<bar> \<le> 2 ^ 26" using ra by simp
  have o: "overlaps a b \<longleftrightarrow>
      sqrt (real_of_int (dx\<^sup>2 + dy\<^sup>2)) < real_of_int (Radius a + Radius b)"
    using nn rounded_sqrt_less[OF nn d53 s26] by (simp only: overlaps_def Let_def sx m d2 rs) simp
  have p: "apart a b \<longleftrightarrow>
      real_of_int (Radius a + Radius b) \<le> sqrt (real_of_int (dx\<^sup>2 + dy\<^sup>2))"
    by (simp add: apart_def dx_def dy_def)
  show ?thesis unfolding o p by (simp add: not_le)
qed

lemma sdiv_two: "1 \<le> w \<Longrightarrow> w sdiv 2 = w div (2::int)"
  by (simp add: signed_divide_int_def sgn_if)

lemma radiusOf_OK: "saneConfig (config g) \<Longrightarrow> radiusOK (radiusOf isSpawn g)"
  by (simp add: saneConfig_def radiusOf_def)

lemma center_snug:
  assumes "saneConfig (config g)"
    and "canPlaceCircle g \<lparr>Circle.X = Width (config g) sdiv 2, Circle.Y = Height (config g) sdiv 2,
                          Radius = SpawnR (config g), Type = t\<rparr>"
  shows "snug (config g) \<lparr>Circle.X = Width (config g) sdiv 2, Circle.Y = Height (config g) sdiv 2,
                          Radius = SpawnR (config g), Type = t\<rparr>"
proof -
  note b = saneConfig_bounds[OF assms(1)]
  have r: "0 \<le> SpawnR (config g)" "SpawnR (config g) < 2 ^ 62"
    using assms(1) by (auto simp: saneConfig_def radiusOK_def)
  define cx where "cx = Width (config g) div 2"
  define cy where "cy = Height (config g) div 2"
  have c: "0 \<le> cx" "cx \<le> 50" "0 \<le> cy" "cy \<le> 50" using b by (auto simp: cx_def cy_def)
  have w: "sub64 cx (SpawnR (config g)) = cx - SpawnR (config g)"
          "add64 cx (SpawnR (config g)) = cx + SpawnR (config g)"
          "sub64 cy (SpawnR (config g)) = cy - SpawnR (config g)"
          "add64 cy (SpawnR (config g)) = cy + SpawnR (config g)"
    using c r by (auto simp: sub64_def add64_def wrap64_id)
  from assms(2) have "\<not> (cx - SpawnR (config g) < 0 \<or> cx + SpawnR (config g) \<ge> Width (config g) \<or>
      cy - SpawnR (config g) < 0 \<or> cy + SpawnR (config g) \<ge> Height (config g))"
    using b by (auto simp: canPlaceCircle_def sdiv_two cx_def[symmetric] cy_def[symmetric] w split: if_splits)
  then show ?thesis
    using r b by (auto simp: snug_def radiusOK_def sdiv_two cx_def cy_def)
qed

lemma canPlace_apart:
  assumes "saneConfig (config g)" "\<forall>c\<in>set (getAllCircles g). snug (config g) c"
    "snug (config g) new" "canPlaceCircle g new"
  shows "\<forall>ex\<in>set (getAllCircles g). apart new ex"
proof
  fix ex assume ex: "ex \<in> set (getAllCircles g)"
  from assms(4) have "list_all (\<lambda>existing. \<not> overlaps new existing) (getAllCircles g)"
    by (auto simp: canPlaceCircle_def split: if_splits)
  with ex have "\<not> overlaps new ex" by (simp add: list_all_iff)
  moreover have "snug (config g) ex" using assms(2) ex by blast
  ultimately show "apart new ex" using overlaps_exact[OF assms(1,3)] by blast
qed

lemma sorted_wrt_insert_mid:
  "sorted_wrt P (xs @ ys) \<Longrightarrow> \<forall>e\<in>set (xs @ ys). P c e \<and> P e c \<Longrightarrow> sorted_wrt P (xs @ c # ys)"
  by (auto simp: sorted_wrt_append)

lemma getAllCircles_addCircle:
  "getAllCircles (addCircle True new g) =
     map (\<lambda>c. c\<lparr>Type := ''spawn''\<rparr>) (spawns g) @ new\<lparr>Type := ''spawn''\<rparr> #
     map (\<lambda>c. c\<lparr>Type := ''bedroom''\<rparr>) (bedrooms g)"
  "getAllCircles (addCircle False new g) =
     (map (\<lambda>c. c\<lparr>Type := ''spawn''\<rparr>) (spawns g) @
      map (\<lambda>c. c\<lparr>Type := ''bedroom''\<rparr>) (bedrooms g)) @ new\<lparr>Type := ''bedroom''\<rparr> # []"
  by (simp_all add: getAllCircles_def addCircle_def)

lemma inv_addCircle:
  assumes "inv cfg g" "snug cfg new" "\<forall>ex\<in>set (getAllCircles g). apart new ex"
  shows "inv cfg (addCircle isSpawn new g)"
proof -
  let ?S = "map (\<lambda>c. c\<lparr>Type := ''spawn''\<rparr>) (spawns g)"
  let ?B = "map (\<lambda>c. c\<lparr>Type := ''bedroom''\<rparr>) (bedrooms g)"
  have all: "getAllCircles g = ?S @ ?B" by (simp add: getAllCircles_def)
  have s: "sorted_wrt apart (?S @ ?B)" using assms(1) by (simp add: inv_def all)
  have sn: "\<forall>c\<in>set (?S @ ?B). snug cfg c" using assms(1) by (simp add: inv_def all)
  have ap: "\<forall>e\<in>set (?S @ ?B). apart (new\<lparr>Type := t\<rparr>) e \<and> apart e (new\<lparr>Type := t\<rparr>)" for t
    using assms(3) apart_sym unfolding all by (metis apart_Type(1))
  have c: "config (addCircle isSpawn new g) = cfg" using assms(1) by (simp add: inv_def addCircle_def)
  show ?thesis
  proof (cases isSpawn)
    case True
    have "sorted_wrt apart (?S @ new\<lparr>Type := ''spawn''\<rparr> # ?B)"
      using sorted_wrt_insert_mid[OF s ap] .
    moreover have "\<forall>c\<in>set (?S @ new\<lparr>Type := ''spawn''\<rparr> # ?B). snug cfg c"
      using sn assms(2) by auto
    ultimately show ?thesis using c True
      by (simp add: inv_def getAllCircles_addCircle(1))
  next
    case False
    have "sorted_wrt apart ((?S @ ?B) @ new\<lparr>Type := ''bedroom''\<rparr> # [])"
      using sorted_wrt_insert_mid[of apart "?S @ ?B" "[]" "new\<lparr>Type := ''bedroom''\<rparr>"] s ap by simp
    moreover have "\<forall>c\<in>set ((?S @ ?B) @ new\<lparr>Type := ''bedroom''\<rparr> # []). snug cfg c"
      using sn assms(2) by auto
    ultimately show ?thesis using c False
      by (simp add: inv_def getAllCircles_addCircle(2))
  qed
qed

lemma placeLoop_inv:
  assumes "saneConfig cfg"
  shows "inv cfg g \<Longrightarrow> placeLoop isSpawn attempts g rng = Inr (placed, g', rng') \<Longrightarrow> inv cfg g'"
proof (induction n \<equiv> "nat (3000 - attempts)" arbitrary: attempts rng)
  case 0
  then have "\<not> attempts < 3000" by simp
  with "0.prems" show ?case by (simp add: placeLoop.simps)
next
  case (Suc n)
  have lt: "attempts < 3000" using Suc.hyps(2) by linarith
  have cfg: "config g = cfg" using Suc.prems(1) by (simp add: inv_def)
  note unf = placeLoop.simps[of isSpawn attempts g rng]
  from lt Suc.prems(2) obtain pos rng1 where p: "propose g (radiusOf isSpawn g) rng = Inr (pos, rng1)"
    by (auto simp: unf split: sum.splits)
  have rok: "radiusOK (radiusOf isSpawn g)" using radiusOf_OK assms cfg by simp
  have "propose g (radiusOf isSpawn g) rng = Inr ((fst pos, snd pos), rng1)" using p by simp
  from propose_range[OF _ rok this] assms cfg
  have sn: "snug cfg (candidate isSpawn g pos)"
    using rok by (simp add: snug_def candidate_def)
  show ?case
  proof (cases "canPlaceCircle g (candidate isSpawn g pos)")
    case True
    with lt p Suc.prems(2) have g': "g' = addCircle isSpawn (candidate isSpawn g pos) g"
      by (simp add: unf)
    have "\<forall>ex\<in>set (getAllCircles g). apart (candidate isSpawn g pos) ex"
      using canPlace_apart[of g "candidate isSpawn g pos"] assms cfg Suc.prems(1) sn True
      by (simp add: inv_def)
    then show ?thesis unfolding g' using inv_addCircle[OF Suc.prems(1) sn] by blast
  next
    case False
    with lt p Suc.prems(2) have "placeLoop isSpawn (attempts + 1) g rng1 = Inr (placed, g', rng')"
      by (simp add: unf)
    moreover have "n = nat (3000 - (attempts + 1))" using Suc.hyps(2) by linarith
    ultimately show ?thesis using Suc.hyps(1) Suc.prems(1) by blast
  qed
qed

lemma spawnLoop_inv:
  assumes "saneConfig cfg"
  shows "inv cfg g \<Longrightarrow> spawnLoop i g rng = Inr (g', rng') \<Longrightarrow> inv cfg g'"
proof (induction n \<equiv> "nat (Spawns cfg - i)" arbitrary: i g rng)
  case 0
  have cfg: "config g = cfg" using "0.prems"(1) by (simp add: inv_def)
  from 0 have "\<not> i < Spawns (config g)" using cfg by simp
  with "0.prems" show ?case by (simp add: spawnLoop.simps)
next
  case (Suc n)
  have cfg: "config g = cfg" using Suc.prems(1) by (simp add: inv_def)
  have lt: "i < Spawns (config g)" using Suc.hyps(2) unfolding cfg by linarith
  note unf = spawnLoop.simps[of i g rng]
  from lt Suc.prems(2) obtain g1 rng1 where
    p: "placeLoop True 0 g rng = Inr (True, g1, rng1)"
    and rest: "spawnLoop (i + 1) g1 rng1 = Inr (g', rng')"
    by (auto simp: unf split: sum.splits if_splits)
  have "inv cfg g1" using placeLoop_inv[OF assms Suc.prems(1) p] .
  moreover have "n = nat (Spawns cfg - (i + 1))" using Suc.hyps(2) by linarith
  ultimately show ?case using Suc.hyps(1) rest by blast
qed

lemma bedroomLoop_inv:
  assumes "saneConfig cfg"
  shows "inv cfg g \<Longrightarrow> bedroomLoop i g rng = Inr (g', rng') \<Longrightarrow> inv cfg g'"
proof (induction n \<equiv> "nat (Bedrooms cfg - i)" arbitrary: i g rng)
  case 0
  have cfg: "config g = cfg" using "0.prems"(1) by (simp add: inv_def)
  from 0 have "\<not> i < Bedrooms (config g)" using cfg by simp
  with "0.prems" show ?case by (simp add: bedroomLoop.simps)
next
  case (Suc n)
  have cfg: "config g = cfg" using Suc.prems(1) by (simp add: inv_def)
  have lt: "i < Bedrooms (config g)" using Suc.hyps(2) unfolding cfg by linarith
  note unf = bedroomLoop.simps[of i g rng]
  from lt Suc.prems(2) obtain g1 rng1 where
    p: "placeLoop False 0 g rng = Inr (True, g1, rng1)"
    and rest: "bedroomLoop (i + 1) g1 rng1 = Inr (g', rng')"
    by (auto simp: unf split: sum.splits if_splits)
  have "inv cfg g1" using placeLoop_inv[OF assms Suc.prems(1) p] .
  moreover have "n = nat (Bedrooms cfg - (i + 1))" using Suc.hyps(2) by linarith
  ultimately show ?case using Suc.hyps(1) rest by blast
qed

lemma inv_New: "inv cfg (NewMapGenerator cfg)"
  by (simp add: inv_def NewMapGenerator_def getAllCircles_def)

lemma placeCenter_inv:
  assumes "saneConfig cfg" "inv cfg g"
  shows "inv cfg (placeCenter g)"
proof -
  have cfg: "config g = cfg" using assms(2) by (simp add: inv_def)
  let ?c = "\<lparr>Circle.X = Width (config g) sdiv 2, Circle.Y = Height (config g) sdiv 2,
                          Radius = SpawnR (config g), Type = ''''\<rparr>"
  show ?thesis
  proof (cases "Spawns (config g) > 0 \<and> canPlaceCircle g ?c")
    case False
    then show ?thesis using assms(2) by (auto simp: placeCenter_def Let_def)
  next
    case True
    then have sn: "snug cfg ?c" using center_snug[of g "''''"] assms(1) cfg by simp
    have "\<forall>ex\<in>set (getAllCircles g). apart ?c ex"
      using canPlace_apart[of g ?c] assms cfg sn True by (simp add: inv_def)
    from inv_addCircle[OF assms(2) sn this, of True] True
    show ?thesis by (simp add: placeCenter_def Let_def addCircle_def)
  qed
qed

lemma Generate_inv:
  assumes "saneConfig cfg" "Generate (NewMapGenerator cfg) rng = Inr (g, rng')"
  shows "inv cfg g"
proof -
  let ?g1 = "placeCenter (NewMapGenerator cfg)"
  have 1: "inv cfg ?g1" using placeCenter_inv[OF assms(1) inv_New] .
  from assms(2) obtain g2 rng2 where
    s: "spawnLoop (int (length (spawns ?g1))) ?g1 rng = Inr (g2, rng2)"
    and b: "bedroomLoop 0 g2 rng2 = Inr (g, rng')"
    by (auto simp: Generate_def Let_def split: sum.splits)
  have "inv cfg g2" using spawnLoop_inv[OF assms(1) 1 s] .
  then show ?thesis using bedroomLoop_inv[OF assms(1) _ b] by blast
qed

lemma Generate_apart:
  assumes "saneConfig cfg" "Generate (NewMapGenerator cfg) rng = Inr (g, rng')"
  shows "\<forall>i<length (getAllCircles g). \<forall>j<length (getAllCircles g).
            i \<noteq> j \<longrightarrow> apart (getAllCircles g ! i) (getAllCircles g ! j)"
proof (intro allI impI)
  fix i j assume ij: "i < length (getAllCircles g)" "j < length (getAllCircles g)" "i \<noteq> j"
  have s: "sorted_wrt apart (getAllCircles g)" using Generate_inv[OF assms] by (simp add: inv_def)
  show "apart (getAllCircles g ! i) (getAllCircles g ! j)"
  proof (cases "i < j")
    case True
    then show ?thesis using s ij by (simp add: sorted_wrt_iff_nth_less)
  next
    case False
    then have "j < i" using ij by simp
    then have "apart (getAllCircles g ! j) (getAllCircles g ! i)"
      using s ij by (simp add: sorted_wrt_iff_nth_less)
    then show ?thesis by (rule apart_sym)
  qed
qed

lemmas arith64 = sub64_def add64_def mul64_def wrap64_def

lemma overlaps_int:
  assumes "add64 (mul64 (sub64 (Circle.X newCircle) (Circle.X existing)) (sub64 (Circle.X newCircle) (Circle.X existing)))
                 (mul64 (sub64 (Circle.Y newCircle) (Circle.Y existing)) (sub64 (Circle.Y newCircle) (Circle.Y existing))) = d2"
    and "add64 (Circle.Radius newCircle) (Circle.Radius existing) = rs"
    and "0 \<le> d2" "d2 \<le> 2 ^ 53" "\<bar>rs\<bar> \<le> 2 ^ 26"
  shows "overlaps newCircle existing \<longleftrightarrow> 0 < rs \<and> d2 < rs * rs"
  using assms(3) rounded_sqrt_less[OF assms(3,4,5)] sqrt_less_of_int[OF assms(3), of rs]
  by (simp only: overlaps_def Let_def assms(1,2)) simp

lemma Generate_example:
  "Generate (NewMapGenerator \<lparr>Config.Width = 10, Config.Height = 10, Spawns = 1, Bedrooms = 1,
       SpawnR = 2, BedroomR = 1, Config.MaxGap = 1\<rparr>) [] =
   Inr (\<lparr>config = \<lparr>Config.Width = 10, Config.Height = 10, Spawns = 1, Bedrooms = 1,
       SpawnR = 2, BedroomR = 1, Config.MaxGap = 1\<rparr>,
         spawns = [\<lparr>Circle.X = 5, Circle.Y = 5, Circle.Radius = 2, Type = ''''\<rparr>],
         bedrooms = [\<lparr>Circle.X = 8, Circle.Y = 5, Circle.Radius = 1, Type = ''''\<rparr>]\<rparr>, [])"
proof -
  let ?cfg = "\<lparr>Config.Width = 10, Config.Height = 10, Spawns = 1, Bedrooms = 1,
       SpawnR = 2, BedroomR = 1, Config.MaxGap = 1\<rparr>"
  let ?s = "\<lparr>Circle.X = 5, Circle.Y = 5, Circle.Radius = 2, Type = ''''\<rparr>"
  let ?b = "\<lparr>Circle.X = 8, Circle.Y = 5, Circle.Radius = 1, Type = ''''\<rparr>"
  let ?g1 = "\<lparr>config = ?cfg, spawns = [?s], bedrooms = []\<rparr>"
  let ?g2 = "\<lparr>config = ?cfg, spawns = [?s], bedrooms = [?b]\<rparr>"
  have c: "placeCenter (NewMapGenerator ?cfg) = ?g1"
    by (simp add: placeCenter_def NewMapGenerator_def canPlaceCircle_def getAllCircles_def Let_def
        arith64 signed_divide_int_def)
  have s: "spawnLoop 1 ?g1 [] = Inr (?g1, [])"
    by (subst spawnLoop.simps) simp
  have n: "nearbyLoop ?g1 \<lparr>Circle.X = 5, Circle.Y = 5, Circle.Radius = 2, Type = ''spawn''\<rparr> 1 0 []
             = Inr ((8, 5), [])"
    by (subst nearbyLoop.simps) (simp add: Float64_def Let_def truncInt_def arith64)
  have ga: "getAllCircles ?g1 = [\<lparr>Circle.X = 5, Circle.Y = 5, Circle.Radius = 2, Type = ''spawn''\<rparr>]"
    by (simp add: getAllCircles_def)
  have p: "propose ?g1 1 [] = Inr ((8, 5), [])"
    by (simp add: propose_def ga Intn_def generateNearbyPosition_def n)
  have ov: "\<not> overlaps ?b \<lparr>Circle.X = 5, Circle.Y = 5, Circle.Radius = 2, Type = ''spawn''\<rparr>"
    by (subst overlaps_int[where ?d2.0 = 9 and rs = 3]) (simp_all add: arith64)
  have cp: "canPlaceCircle ?g1 ?b"
    by (simp add: canPlaceCircle_def ga ov arith64)
  have l: "placeLoop False 0 ?g1 [] = Inr (True, ?g2, [])"
    by (subst placeLoop.simps) (simp add: radiusOf_def p candidate_def cp addCircle_def)
  have b1: "bedroomLoop 1 ?g2 [] = Inr (?g2, [])"
    by (subst bedroomLoop.simps) simp
  have b0: "bedroomLoop 0 ?g1 [] = Inr (?g2, [])"
    by (subst bedroomLoop.simps) (simp add: l b1)
  show ?thesis by (simp add: Generate_def c s b0)
qed

text \<open>
  C5, as the code has it.  For a sane configuration, every circle of a successful
  \<^verbatim>\<open>Generate\<close> fits the bounds, for every random source.
\<close>

theorem generated_circles_within_bounds:
  assumes "saneConfig cfg" "Generate (NewMapGenerator cfg) rng = Inr (g, rng')"
  shows "\<forall>c\<in>set (getAllCircles g). fits cfg c"
  using Generate_inv[OF assms] snug_fits by (auto simp: inv_def)

theorem generated_circles_within_bounds_witness:
  "saneConfig \<lparr>Config.Width = 10, Config.Height = 10, Spawns = 1, Bedrooms = 1,
       SpawnR = 2, BedroomR = 1, Config.MaxGap = 1\<rparr> \<and>
   Generate (NewMapGenerator \<lparr>Config.Width = 10, Config.Height = 10, Spawns = 1, Bedrooms = 1,
       SpawnR = 2, BedroomR = 1, Config.MaxGap = 1\<rparr>) [] =
   Inr (\<lparr>config = \<lparr>Config.Width = 10, Config.Height = 10, Spawns = 1, Bedrooms = 1,
       SpawnR = 2, BedroomR = 1, Config.MaxGap = 1\<rparr>,
         spawns = [\<lparr>Circle.X = 5, Circle.Y = 5, Circle.Radius = 2, Type = ''''\<rparr>],
         bedrooms = [\<lparr>Circle.X = 8, Circle.Y = 5, Circle.Radius = 1, Type = ''''\<rparr>]\<rparr>, []) \<and>
   fits \<lparr>Config.Width = 10, Config.Height = 10, Spawns = 1, Bedrooms = 1,
       SpawnR = 2, BedroomR = 1, Config.MaxGap = 1\<rparr>
     \<lparr>Circle.X = 5, Circle.Y = 5, Circle.Radius = 2, Type = ''spawn''\<rparr> \<and>
   fits \<lparr>Config.Width = 10, Config.Height = 10, Spawns = 1, Bedrooms = 1,
       SpawnR = 2, BedroomR = 1, Config.MaxGap = 1\<rparr>
     \<lparr>Circle.X = 8, Circle.Y = 5, Circle.Radius = 1, Type = ''bedroom''\<rparr>"
proof -
  let ?cfg = "\<lparr>Config.Width = 10, Config.Height = 10, Spawns = 1, Bedrooms = 1,
       SpawnR = 2, BedroomR = 1, Config.MaxGap = 1\<rparr>"
  let ?g = "\<lparr>config = ?cfg,
         spawns = [\<lparr>Circle.X = 5, Circle.Y = 5, Circle.Radius = 2, Type = ''''\<rparr>],
         bedrooms = [\<lparr>Circle.X = 8, Circle.Y = 5, Circle.Radius = 1, Type = ''''\<rparr>]\<rparr>"
  have h1: "saneConfig ?cfg" by (simp add: saneConfig_def validateConfig_def radiusOK_def)
  have h2: "Generate (NewMapGenerator ?cfg) [] = Inr (?g, [])" by (rule Generate_example)
  have "\<forall>c\<in>set (getAllCircles ?g). fits ?cfg c"
    by (rule generated_circles_within_bounds[OF h1 h2])
  then have "fits ?cfg \<lparr>Circle.X = 5, Circle.Y = 5, Circle.Radius = 2, Type = ''spawn''\<rparr> \<and>
             fits ?cfg \<lparr>Circle.X = 8, Circle.Y = 5, Circle.Radius = 1, Type = ''bedroom''\<rparr>"
    by (simp add: getAllCircles_def)
  with h1 h2 show ?thesis by simp
qed

text \<open>
  The claim as written, for every successful generation, fails for a negative
  radius, which \<^verbatim>\<open>validateConfig\<close> does not reject: the bounds test
  \<open>X - R < 0 \<or> X + R \<ge> Width\<close> accepts the centre circle of radius \<open>-6\<close> on the
  10 by 10 grid, and centre plus radius is \<open>-1\<close>.
\<close>

theorem negative_radius_leaves_bounds:
  "validateConfig \<lparr>Config.Width = 10, Config.Height = 10, Spawns = 1, Bedrooms = 0,
       SpawnR = - 6, BedroomR = 1, Config.MaxGap = 1\<rparr> = None \<and>
   Generate (NewMapGenerator \<lparr>Config.Width = 10, Config.Height = 10, Spawns = 1, Bedrooms = 0,
       SpawnR = - 6, BedroomR = 1, Config.MaxGap = 1\<rparr>) [] =
     Inr (\<lparr>config = \<lparr>Config.Width = 10, Config.Height = 10, Spawns = 1, Bedrooms = 0,
                SpawnR = - 6, BedroomR = 1, Config.MaxGap = 1\<rparr>,
           spawns = [\<lparr>Circle.X = 5, Circle.Y = 5, Circle.Radius = - 6, Type = ''''\<rparr>],
           bedrooms = []\<rparr>, []) \<and>
   \<not> fits \<lparr>Config.Width = 10, Config.Height = 10, Spawns = 1, Bedrooms = 0,
       SpawnR = - 6, BedroomR = 1, Config.MaxGap = 1\<rparr>
       \<lparr>Circle.X = 5, Circle.Y = 5, Circle.Radius = - 6, Type = ''spawn''\<rparr>"
proof -
  let ?cfg = "\<lparr>Config.Width = 10, Config.Height = 10, Spawns = 1, Bedrooms = 0,
       SpawnR = - 6, BedroomR = 1, Config.MaxGap = 1\<rparr>"
  let ?g1 = "\<lparr>config = ?cfg, spawns = [\<lparr>Circle.X = 5, Circle.Y = 5, Circle.Radius = - 6, Type = ''''\<rparr>],
           bedrooms = []\<rparr>"
  have v: "validateConfig ?cfg = None" by (simp add: validateConfig_def)
  have c: "placeCenter (NewMapGenerator ?cfg) = ?g1"
    by (simp add: placeCenter_def NewMapGenerator_def canPlaceCircle_def getAllCircles_def Let_def
        arith64 signed_divide_int_def)
  have s: "spawnLoop 1 ?g1 [] = Inr (?g1, [])"
    by (subst spawnLoop.simps) simp
  have b: "bedroomLoop 0 ?g1 [] = Inr (?g1, [])"
    by (subst bedroomLoop.simps) simp
  have g: "Generate (NewMapGenerator ?cfg) [] = Inr (?g1, [])"
    by (simp add: Generate_def c s b)
  have f: "\<not> fits ?cfg \<lparr>Circle.X = 5, Circle.Y = 5, Circle.Radius = - 6, Type = ''spawn''\<rparr>"
    by (simp add: fits_def)
  show ?thesis using v g f by simp
qed

text \<open>
  The ways in which \<^verbatim>\<open>Generate\<close> fails: a panic of \<^verbatim>\<open>rand.Intn\<close>, or, when the
  attempts of one circle are used up, the error that names the kind and the
  position (counted from 1) of that circle.
\<close>

lemma Intn_error: "Intn n g = Inl e \<Longrightarrow> e = IntnPanic"
  by (auto simp: Intn_def split: if_splits prod.splits)

lemma uniformPosition_error: "uniformPosition g r rng = Inl e \<Longrightarrow> e = IntnPanic"
  by (auto simp: uniformPosition_def split: sum.splits dest: Intn_error)

lemma nearbyLoop_error: "nearbyLoop g base r attempts rng = Inl e \<Longrightarrow> e = IntnPanic"
proof (induction n \<equiv> "nat (30 - attempts)" arbitrary: attempts rng)
  case 0
  then have "\<not> attempts < 30" by simp
  then have "nearbyLoop g base r attempts rng = uniformPosition g r rng"
    by (subst nearbyLoop.simps) simp
  with "0.prems" show ?case using uniformPosition_error by simp
next
  case (Suc n)
  have lt: "attempts < 30" using Suc.hyps(2) by linarith
  obtain a rng1 where a: "Float64 rng = (a, rng1)" by (cases "Float64 rng")
  obtain b rng2 where b: "Float64 rng1 = (b, rng2)" by (cases "Float64 rng1")
  from Suc.prems have "nearbyLoop g base r (attempts + 1) rng2 = Inl e"
    by (subst (asm) nearbyLoop.simps) (simp add: lt a b Let_def split: if_splits)
  moreover have "n = nat (30 - (attempts + 1))" using Suc.hyps(2) by linarith
  ultimately show ?case using Suc.hyps(1) by blast
qed

lemma propose_error: "propose g r rng = Inl e \<Longrightarrow> e = IntnPanic"
  by (auto simp: propose_def Let_def generateNearbyPosition_def split: if_splits sum.splits
           dest: Intn_error nearbyLoop_error uniformPosition_error)

lemma placeLoop_error: "placeLoop isSpawn attempts g rng = Inl e \<Longrightarrow> e = IntnPanic"
proof (induction n \<equiv> "nat (3000 - attempts)" arbitrary: attempts rng)
  case 0
  then have "\<not> attempts < 3000" by simp
  with "0.prems" show ?case by (simp add: placeLoop.simps)
next
  case (Suc n)
  have lt: "attempts < 3000" using Suc.hyps(2) by linarith
  note unf = placeLoop.simps[of isSpawn attempts g rng]
  show ?case
  proof (cases "propose g (radiusOf isSpawn g) rng")
    case (Inl e')
    with Suc.prems lt have "e = e'" by (simp add: unf)
    with Inl show ?thesis using propose_error by blast
  next
    case (Inr pr)
    with Suc.prems lt have "placeLoop isSpawn (attempts + 1) g (snd pr) = Inl e"
      by (cases pr) (simp add: unf split: if_splits)
    moreover have "n = nat (3000 - (attempts + 1))" using Suc.hyps(2) by linarith
    ultimately show ?thesis using Suc.hyps(1) by blast
  qed
qed

lemma spawnLoop_error:
  "spawnLoop i g rng = Inl e \<Longrightarrow>
   e = IntnPanic \<or> (\<exists>j. e = NotPlaced ''spawn'' j \<and> i < j \<and> j \<le> Spawns (config g))"
proof (induction n \<equiv> "nat (Spawns (config g) - i)" arbitrary: i g rng)
  case 0
  then have "\<not> i < Spawns (config g)" by simp
  with "0.prems" show ?case by (simp add: spawnLoop.simps)
next
  case (Suc n)
  have lt: "i < Spawns (config g)" using Suc.hyps(2) by linarith
  note unf = spawnLoop.simps[of i g rng]
  show ?case
  proof (cases "placeLoop True 0 g rng")
    case (Inl e')
    with Suc.prems lt have "e = e'" by (simp add: unf)
    with Inl show ?thesis using placeLoop_error by blast
  next
    case (Inr res)
    obtain placed g1 rng1 where res: "res = (placed, g1, rng1)" by (cases res)
    show ?thesis
    proof (cases placed)
      case False
      with Suc.prems lt Inr res have "e = NotPlaced ''spawn'' (i + 1)" by (simp add: unf)
      then show ?thesis using lt by auto
    next
      case True
      have c: "config g1 = config g" using placeLoop_config[of True 0 g rng placed g1 rng1] Inr res by simp
      from True Suc.prems lt Inr res have "spawnLoop (i + 1) g1 rng1 = Inl e" by (simp add: unf)
      moreover have "n = nat (Spawns (config g1) - (i + 1))" using Suc.hyps(2) unfolding c by linarith
      ultimately have "e = IntnPanic \<or> (\<exists>j. e = NotPlaced ''spawn'' j \<and> i + 1 < j \<and> j \<le> Spawns (config g1))"
        using Suc.hyps(1) by blast
      then show ?thesis using c by auto
    qed
  qed
qed

lemma bedroomLoop_error:
  "bedroomLoop i g rng = Inl e \<Longrightarrow>
   e = IntnPanic \<or> (\<exists>j. e = NotPlaced ''bedroom'' j \<and> i < j \<and> j \<le> Bedrooms (config g))"
proof (induction n \<equiv> "nat (Bedrooms (config g) - i)" arbitrary: i g rng)
  case 0
  then have "\<not> i < Bedrooms (config g)" by simp
  with "0.prems" show ?case by (simp add: bedroomLoop.simps)
next
  case (Suc n)
  have lt: "i < Bedrooms (config g)" using Suc.hyps(2) by linarith
  note unf = bedroomLoop.simps[of i g rng]
  show ?case
  proof (cases "placeLoop False 0 g rng")
    case (Inl e')
    with Suc.prems lt have "e = e'" by (simp add: unf)
    with Inl show ?thesis using placeLoop_error by blast
  next
    case (Inr res)
    obtain placed g1 rng1 where res: "res = (placed, g1, rng1)" by (cases res)
    show ?thesis
    proof (cases placed)
      case False
      with Suc.prems lt Inr res have "e = NotPlaced ''bedroom'' (i + 1)" by (simp add: unf)
      then show ?thesis using lt by auto
    next
      case True
      have c: "config g1 = config g" using placeLoop_config[of False 0 g rng placed g1 rng1] Inr res by simp
      from True Suc.prems lt Inr res have "bedroomLoop (i + 1) g1 rng1 = Inl e" by (simp add: unf)
      moreover have "n = nat (Bedrooms (config g1) - (i + 1))" using Suc.hyps(2) unfolding c by linarith
      ultimately have "e = IntnPanic \<or> (\<exists>j. e = NotPlaced ''bedroom'' j \<and> i + 1 < j \<and> j \<le> Bedrooms (config g1))"
        using Suc.hyps(1) by blast
      then show ?thesis using c by auto
    qed
  qed
qed

lemma spawnLoop_config:
  "spawnLoop i g rng = Inr (g', rng') \<Longrightarrow> config g' = config g"
proof (induction n \<equiv> "nat (Spawns (config g) - i)" arbitrary: i g rng)
  case 0
  then have "\<not> i < Spawns (config g)" by simp
  with "0.prems" show ?case by (simp add: spawnLoop.simps)
next
  case (Suc n)
  have lt: "i < Spawns (config g)" using Suc.hyps(2) by linarith
  note unf = spawnLoop.simps[of i g rng]
  from lt Suc.prems obtain g1 rng1 where
    p: "placeLoop True 0 g rng = Inr (True, g1, rng1)"
    and rest: "spawnLoop (i + 1) g1 rng1 = Inr (g', rng')"
    by (auto simp: unf split: sum.splits if_splits)
  have c: "config g1 = config g" using placeLoop_config[OF p] .
  have "n = nat (Spawns (config g1) - (i + 1))" using Suc.hyps(2) unfolding c by linarith
  then have "config g' = config g1" using Suc.hyps(1) rest by blast
  with c show ?case by simp
qed

lemma Generate_error:
  "Generate g rng = Inl e \<Longrightarrow>
   e = IntnPanic \<or>
   (\<exists>j. e = NotPlaced ''spawn'' j \<and> 1 \<le> j \<and> j \<le> Spawns (config g)) \<or>
   (\<exists>j. e = NotPlaced ''bedroom'' j \<and> 1 \<le> j \<and> j \<le> Bedrooms (config g))"
proof -
  assume a: "Generate g rng = Inl e"
  have pc: "config (placeCenter g) = config g" by (simp add: placeCenter_def Let_def)
  show ?thesis
  proof (cases "spawnLoop (int (length (spawns (placeCenter g)))) (placeCenter g) rng")
    case (Inl e')
    with a have "e = e'" by (simp add: Generate_def Let_def)
    with Inl spawnLoop_error[of "int (length (spawns (placeCenter g)))" "placeCenter g" rng e] pc
    show ?thesis by auto
  next
    case (Inr res)
    obtain g2 rng2 where res: "res = (g2, rng2)" by (cases res)
    with a Inr have b: "bedroomLoop 0 g2 rng2 = Inl e" by (simp add: Generate_def Let_def)
    have "config g2 = config g" using spawnLoop_config[of _ "placeCenter g" rng g2 rng2] Inr res pc by simp
    with bedroomLoop_error[OF b] show ?thesis by auto
  qed
qed

text \<open>
  C9 does not hold of the code when a circle has no room at all.  On the 10 by 10
  grid with one spawn of radius 5 the centre circle is rejected (\<open>5 + 5 \<ge> 10\<close>), and
  the first attempt of the placement loop calls \<^verbatim>\<open>rand.Intn(10 - 2*5)\<close>, which
  panics: \<^verbatim>\<open>Generate\<close> returns no error value, for any random source, although
  \<^verbatim>\<open>validateConfig\<close> accepts the configuration, and nothing names the spawn circle
  that has no room.
\<close>

theorem Generate_panics_without_room:
  "Generate (NewMapGenerator \<lparr>Config.Width = 10, Config.Height = 10, Spawns = 1, Bedrooms = 0,
       SpawnR = 5, BedroomR = 1, Config.MaxGap = 1\<rparr>) rng = Inl IntnPanic \<and>
   validateConfig \<lparr>Config.Width = 10, Config.Height = 10, Spawns = 1, Bedrooms = 0,
       SpawnR = 5, BedroomR = 1, Config.MaxGap = 1\<rparr> = None"
proof -
  let ?cfg = "\<lparr>Config.Width = 10, Config.Height = 10, Spawns = 1, Bedrooms = 0,
       SpawnR = 5, BedroomR = 1, Config.MaxGap = 1\<rparr>"
  let ?g = "\<lparr>config = ?cfg, spawns = [], bedrooms = []\<rparr>"
  have c: "placeCenter (NewMapGenerator ?cfg) = ?g"
    by (simp add: placeCenter_def NewMapGenerator_def canPlaceCircle_def Let_def arith64
        signed_divide_int_def)
  have p: "propose ?g 5 rng = Inl IntnPanic"
    by (simp add: propose_def getAllCircles_def uniformPosition_def Intn_def arith64)
  have l: "placeLoop True 0 ?g rng = Inl IntnPanic"
    by (subst placeLoop.simps) (simp add: radiusOf_def p)
  have s: "spawnLoop 0 ?g rng = Inl IntnPanic"
    by (subst spawnLoop.simps) (simp add: l)
  have v: "validateConfig ?cfg = None" by (simp add: validateConfig_def)
  show ?thesis using v by (simp add: Generate_def c s)
qed

section \<open>Classification over a generated circle set\<close>

text \<open>
  Every circle of a generated set has the spawn radius or the bedroom radius of the
  configuration.  For a sane configuration with positive radii, the circles of a
  generated set are apart, so no circle holds the centre of another within its
  radius, and the centre of every circle is classified as centre (2) whatever its
  position in the slice.
\<close>

definition radiiOf :: "Config \<Rightarrow> MapGenerator \<Rightarrow> bool" where
  "radiiOf cfg g \<longleftrightarrow>
     config g = cfg \<and>
     (\<forall>c\<in>set (getAllCircles g). Circle.Radius c = SpawnR cfg \<or> Circle.Radius c = BedroomR cfg)"

lemma radiiOf_addCircle:
  "radiiOf cfg g \<Longrightarrow> Circle.Radius new = radiusOf isSpawn g \<Longrightarrow> radiiOf cfg (addCircle isSpawn new g)"
  by (auto simp: radiiOf_def addCircle_def getAllCircles_def radiusOf_def)

lemma placeLoop_radiiOf:
  "radiiOf cfg g \<Longrightarrow> placeLoop isSpawn attempts g rng = Inr (placed, g', rng') \<Longrightarrow> radiiOf cfg g'"
proof (induction n \<equiv> "nat (3000 - attempts)" arbitrary: attempts rng)
  case 0
  then have "\<not> attempts < 3000" by simp
  with "0.prems" show ?case by (simp add: placeLoop.simps)
next
  case (Suc n)
  have lt: "attempts < 3000" using Suc.hyps(2) by linarith
  note unf = placeLoop.simps[of isSpawn attempts g rng]
  from lt Suc.prems(2) obtain pos rng1 where p: "propose g (radiusOf isSpawn g) rng = Inr (pos, rng1)"
    by (auto simp: unf split: sum.splits)
  show ?case
  proof (cases "canPlaceCircle g (candidate isSpawn g pos)")
    case True
    with lt p Suc.prems(2) have "g' = addCircle isSpawn (candidate isSpawn g pos) g"
      by (simp add: unf)
    then show ?thesis using radiiOf_addCircle[OF Suc.prems(1)] by (simp add: candidate_def)
  next
    case False
    with lt p Suc.prems(2) have "placeLoop isSpawn (attempts + 1) g rng1 = Inr (placed, g', rng')"
      by (simp add: unf)
    moreover have "n = nat (3000 - (attempts + 1))" using Suc.hyps(2) by linarith
    ultimately show ?thesis using Suc.hyps(1) Suc.prems(1) by blast
  qed
qed

lemma spawnLoop_radiiOf:
  "radiiOf cfg g \<Longrightarrow> spawnLoop i g rng = Inr (g', rng') \<Longrightarrow> radiiOf cfg g'"
proof (induction n \<equiv> "nat (Spawns cfg - i)" arbitrary: i g rng)
  case 0
  have cfg: "config g = cfg" using "0.prems"(1) by (simp add: radiiOf_def)
  from 0 have "\<not> i < Spawns (config g)" using cfg by simp
  with "0.prems" show ?case by (simp add: spawnLoop.simps)
next
  case (Suc n)
  have cfg: "config g = cfg" using Suc.prems(1) by (simp add: radiiOf_def)
  have lt: "i < Spawns (config g)" using Suc.hyps(2) unfolding cfg by linarith
  note unf = spawnLoop.simps[of i g rng]
  from lt Suc.prems(2) obtain g1 rng1 where
    p: "placeLoop True 0 g rng = Inr (True, g1, rng1)"
    and rest: "spawnLoop (i + 1) g1 rng1 = Inr (g', rng')"
    by (auto simp: unf split: sum.splits if_splits)
  have "radiiOf cfg g1" using placeLoop_radiiOf[OF Suc.prems(1) p] .
  moreover have "n = nat (Spawns cfg - (i + 1))" using Suc.hyps(2) by linarith
  ultimately show ?case using Suc.hyps(1) rest by blast
qed

lemma bedroomLoop_radiiOf:
  "radiiOf cfg g \<Longrightarrow> bedroomLoop i g rng = Inr (g', rng') \<Longrightarrow> radiiOf cfg g'"
proof (induction n \<equiv> "nat (Bedrooms cfg - i)" arbitrary: i g rng)
  case 0
  have cfg: "config g = cfg" using "0.prems"(1) by (simp add: radiiOf_def)
  from 0 have "\<not> i < Bedrooms (config g)" using cfg by simp
  with "0.prems" show ?case by (simp add: bedroomLoop.simps)
next
  case (Suc n)
  have cfg: "config g = cfg" using Suc.prems(1) by (simp add: radiiOf_def)
  have lt: "i < Bedrooms (config g)" using Suc.hyps(2) unfolding cfg by linarith
  note unf = bedroomLoop.simps[of i g rng]
  from lt Suc.prems(2) obtain g1 rng1 where
    p: "placeLoop False 0 g rng = Inr (True, g1, rng1)"
    and rest: "bedroomLoop (i + 1) g1 rng1 = Inr (g', rng')"
    by (auto simp: unf split: sum.splits if_splits)
  have "radiiOf cfg g1" using placeLoop_radiiOf[OF Suc.prems(1) p] .
  moreover have "n = nat (Bedrooms cfg - (i + 1))" using Suc.hyps(2) by linarith
  ultimately show ?case using Suc.hyps(1) rest by blast
qed

lemma Generate_radiiOf:
  assumes "Generate (NewMapGenerator cfg) rng = Inr (g, rng')"
  shows "radiiOf cfg g"
proof -
  let ?g1 = "placeCenter (NewMapGenerator cfg)"
  have 1: "radiiOf cfg ?g1"
    by (auto simp: radiiOf_def placeCenter_def NewMapGenerator_def getAllCircles_def Let_def)
  from assms obtain g2 rng2 where
    s: "spawnLoop (int (length (spawns ?g1))) ?g1 rng = Inr (g2, rng2)"
    and b: "bedroomLoop 0 g2 rng2 = Inr (g, rng')"
    by (auto simp: Generate_def Let_def split: sum.splits)
  have "radiiOf cfg g2" using spawnLoop_radiiOf[OF 1 s] .
  then show ?thesis using bedroomLoop_radiiOf[OF _ b] by blast
qed

lemma withinRadius_exact:
  assumes "saneConfig cfg" "snug cfg c" "snug cfg e"
  shows "withinRadius (Circle.X c) (Circle.Y c) e \<longleftrightarrow>
         (Circle.X c - Circle.X e)\<^sup>2 + (Circle.Y c - Circle.Y e)\<^sup>2 \<le> (Circle.Radius e)\<^sup>2"
proof -
  note bd = saneConfig_bounds[OF assms(1)]
  have re: "0 \<le> Circle.Radius e" "Circle.Radius e < 100"
    using assms(3) bd by (auto simp: snug_def radiusOK_def)
  have rc: "0 \<le> Circle.Radius c" using assms(2) by (auto simp: snug_def radiusOK_def)
  have xc: "0 \<le> Circle.X c" "Circle.X c < 100" "0 \<le> Circle.Y c" "Circle.Y c < 100"
    using assms(2) bd rc by (auto simp: snug_def)
  have xe: "0 \<le> Circle.X e" "Circle.X e < 100" "0 \<le> Circle.Y e" "Circle.Y e < 100"
    using assms(3) bd re by (auto simp: snug_def)
  define dx where "dx = Circle.X c - Circle.X e"
  define dy where "dy = Circle.Y c - Circle.Y e"
  have dxr: "- 100 < dx" "dx < 100" "- 100 < dy" "dy < 100"
    using xc xe by (auto simp: dx_def dy_def)
  have sx: "sub64 (Circle.X c) (Circle.X e) = dx" "sub64 (Circle.Y c) (Circle.Y e) = dy"
    using dxr by (auto simp: sub64_def dx_def dy_def wrap64_id)
  have sq: "dx * dx < 10000" "dy * dy < 10000"
  proof -
    have "dx\<^sup>2 \<le> 99\<^sup>2"
      by (rule power2_le_iff_abs_le[THEN iffD2]) (use dxr in auto)
    moreover have "dy\<^sup>2 \<le> 99\<^sup>2"
      by (rule power2_le_iff_abs_le[THEN iffD2]) (use dxr in auto)
    ultimately show "dx * dx < 10000" "dy * dy < 10000" by (simp_all add: power2_eq_square)
  qed
  have rr: "Circle.Radius e * Circle.Radius e < 10000"
  proof -
    have "(Circle.Radius e)\<^sup>2 \<le> 99\<^sup>2"
      by (rule power2_le_iff_abs_le[THEN iffD2]) (use re in auto)
    then show ?thesis by (simp add: power2_eq_square)
  qed
  have lo: "- (2 ^ 63) \<le> dx * dx" "- (2 ^ 63) \<le> dy * dy" "- (2 ^ 63) \<le> dx * dx + dy * dy"
    "- (2 ^ 63) \<le> Circle.Radius e * Circle.Radius e"
    by (rule order_trans[of _ 0], simp, simp)+
  have m: "mul64 dx dx = dx * dx" "mul64 dy dy = dy * dy"
    "mul64 (Circle.Radius e) (Circle.Radius e) = Circle.Radius e * Circle.Radius e"
    using sq rr lo by (auto simp: mul64_def wrap64_id)
  have d2: "add64 (dx * dx) (dy * dy) = dx * dx + dy * dy"
    using sq lo by (simp add: add64_def wrap64_id)
  show ?thesis
    by (simp add: withinRadius_def Let_def sx m d2 power2_eq_square dx_def[symmetric] dy_def[symmetric])
qed

lemma apart_excludes_center:
  assumes "saneConfig cfg" "snug cfg c" "snug cfg e" "apart e c" "0 < Circle.Radius c"
  shows "\<not> withinRadius (Circle.X c) (Circle.Y c) e"
proof
  assume "withinRadius (Circle.X c) (Circle.Y c) e"
  then have le: "(Circle.X c - Circle.X e)\<^sup>2 + (Circle.Y c - Circle.Y e)\<^sup>2 \<le> (Circle.Radius e)\<^sup>2"
    using withinRadius_exact[OF assms(1,2,3)] by simp
  have re: "0 \<le> Circle.Radius e" using assms(3) by (simp add: snug_def radiusOK_def)
  have "(Circle.X e - Circle.X c)\<^sup>2 + (Circle.Y e - Circle.Y c)\<^sup>2 \<le> (Circle.Radius e)\<^sup>2"
    using le by (simp add: power2_commute)
  then have "real_of_int ((Circle.X e - Circle.X c)\<^sup>2 + (Circle.Y e - Circle.Y c)\<^sup>2)
               \<le> real_of_int ((Circle.Radius e)\<^sup>2)"
    by (simp only: of_int_le_iff)
  then have "sqrt (real_of_int ((Circle.X e - Circle.X c)\<^sup>2 + (Circle.Y e - Circle.Y c)\<^sup>2))
               \<le> sqrt (real_of_int ((Circle.Radius e)\<^sup>2))"
    by (simp only: real_sqrt_le_iff)
  also have "\<dots> = real_of_int (Circle.Radius e)" using re by simp
  finally have "real_of_int (Circle.Radius e + Circle.Radius c) \<le> real_of_int (Circle.Radius e)"
    using assms(4) by (simp add: apart_def)
  then show False using assms(5) by simp
qed

lemma generated_center_is_Center:
  assumes "saneConfig cfg" "0 < SpawnR cfg" "0 < BedroomR cfg"
    and "Generate (NewMapGenerator cfg) rng = Inr (g, rng')"
    and "c \<in> set (getAllCircles g)"
  shows "getCellType (Circle.X c) (Circle.Y c) (getAllCircles g) = 2"
proof -
  let ?cs = "getAllCircles g"
  have i: "inv cfg g" using Generate_inv[OF assms(1,4)] .
  have r: "radiiOf cfg g" using Generate_radiiOf[OF assms(4)] .
  from assms(5) obtain k where k: "k < length ?cs" "?cs ! k = c" by (auto simp: in_set_conv_nth)
  have pos: "0 < Circle.Radius c" using r assms(2,3,5) by (auto simp: radiiOf_def)
  have sc: "snug cfg c" using i assms(5) by (simp add: inv_def)
  have "\<forall>j<k. isCenter (Circle.X c) (Circle.Y c) (?cs ! j) \<or>
               \<not> withinRadius (Circle.X c) (Circle.Y c) (?cs ! j)"
  proof (intro allI impI)
    fix j assume j: "j < k"
    have se: "snug cfg (?cs ! j)" using i j k(1) by (simp add: inv_def)
    have "apart (?cs ! j) (?cs ! k)"
      using i j k(1) by (simp add: inv_def sorted_wrt_iff_nth_less)
    then have "\<not> withinRadius (Circle.X c) (Circle.Y c) (?cs ! j)"
      using apart_excludes_center[OF assms(1) sc se _ pos] k(2) by simp
    then show "isCenter (Circle.X c) (Circle.Y c) (?cs ! j) \<or>
               \<not> withinRadius (Circle.X c) (Circle.Y c) (?cs ! j)" by simp
  qed
  moreover have "isCenter (Circle.X c) (Circle.Y c) (?cs ! k)" using k(2) isCenter_self by simp
  ultimately show ?thesis using getCellType_first[OF k(1)] by blast
qed

section \<open>The image variant\<close>

text \<open>
  The second generator draws the map as an image.  Its structs are also called
  \<^verbatim>\<open>Circle\<close> and \<^verbatim>\<open>MapGenerator\<close> in the source; here they are \<open>ImageCircle\<close> and
  \<open>ImageMapGenerator\<close>.  \<^verbatim>\<open>tryPlace\<close> is the closure of \<^verbatim>\<open>generateCircles\<close>, with the
  slice it appends to and the attempt counter as arguments; its parameter
  \<^verbatim>\<open>count\<close> is \<open>cnt\<close>.
\<close>

record ImageCircle =
  X :: int
  Y :: int
  Radius :: int
  IsSpawn :: bool

record ImageMapGenerator =
  Width :: int
  Height :: int
  SpawnCount :: int
  BedroomCount :: int
  SpawnRadius :: int
  BedroomRadius :: int
  MaxGap :: int
  CellSize :: int

text \<open>
  \<^verbatim>\<open>intersects\<close> works on pixels, whose coordinates \<^verbatim>\<open>mapHandler\<close> does not bound, so
  the three \<^verbatim>\<open>float64\<close> operations are taken with their rounding: the conversion of
  the squared distance, \<^verbatim>\<open>math.Sqrt\<close> (correctly rounded), and the conversion of the
  sum of the radii.  A negative squared distance (after wrap-around) gives NaN,
  which is less than nothing.
\<close>

definition intersects :: "ImageCircle \<Rightarrow> ImageCircle \<Rightarrow> bool" where
  "intersects c1 c2 \<longleftrightarrow>
     (let dx = sub64 (ImageCircle.X c1) (ImageCircle.X c2);
          dy = sub64 (ImageCircle.Y c1) (ImageCircle.Y c2);
          d2 = add64 (mul64 dx dx) (mul64 dy dy);
          distance = round64 (sqrt (round64 (real_of_int d2)))
      in 0 \<le> d2 \<and>
         distance < round64 (real_of_int (add64 (ImageCircle.Radius c1) (ImageCircle.Radius c2))))"

function tryPlace ::
  "ImageMapGenerator \<Rightarrow> int \<Rightarrow> int \<Rightarrow> bool \<Rightarrow> int \<Rightarrow> ImageCircle list \<Rightarrow> rng \<Rightarrow>
   error + (ImageCircle list \<times> rng)" where
  "tryPlace mg cnt radius isSpawn attempts circles rng =
     (if int (length circles) < cnt \<and> attempts < 50000 then
        (case Intn (sub64 (mul64 (ImageMapGenerator.Width mg) (CellSize mg)) (mul64 2 radius)) rng of
           Inl e \<Rightarrow> Inl e
         | Inr (a, rng1) \<Rightarrow>
             (case Intn (sub64 (mul64 (ImageMapGenerator.Height mg) (CellSize mg)) (mul64 2 radius)) rng1 of
                Inl e \<Rightarrow> Inl e
              | Inr (b, rng2) \<Rightarrow>
                  tryPlace mg cnt radius isSpawn (attempts + 1)
                    (if list_all (\<lambda>ex. \<not> intersects
                          \<lparr>ImageCircle.X = add64 a radius, ImageCircle.Y = add64 b radius,
                           ImageCircle.Radius = radius, IsSpawn = isSpawn\<rparr> ex) circles
                     then circles @ [\<lparr>ImageCircle.X = add64 a radius, ImageCircle.Y = add64 b radius,
                                      ImageCircle.Radius = radius, IsSpawn = isSpawn\<rparr>]
                     else circles)
                    rng2))
      else Inr (circles, rng))"
  by pat_completeness auto
termination
  by (relation "measure (\<lambda>(mg, cnt, radius, isSpawn, attempts, circles, rng). nat (50000 - attempts))") auto

declare tryPlace.simps [simp del]

definition generateCircles :: "ImageMapGenerator \<Rightarrow> rng \<Rightarrow> error + (ImageCircle list \<times> rng)" where
  "generateCircles mg rng =
     (case tryPlace mg (SpawnCount mg) (SpawnRadius mg) True 0 [] rng of
        Inl e \<Rightarrow> Inl e
      | Inr (circles1, rng1) \<Rightarrow>
          (case tryPlace mg (add64 (SpawnCount mg) (BedroomCount mg)) (BedroomRadius mg) False 0
                  circles1 rng1 of
             Inl e \<Rightarrow> Inl e
           | Inr (circles2, rng2) \<Rightarrow>
               if int (length circles2) < add64 (SpawnCount mg) (BedroomCount mg)
               then Inl CannotPlaceAll
               else Inr (circles2, rng2)))"

text \<open>
  Distance in exact arithmetic, and the range of dimensions and radii in which the
  integer arithmetic of the image variant does not wrap around and its \<^verbatim>\<open>float64\<close>
  comparison decides as the exact one: the image is at most \<open>2^26\<close> pixels wide and
  high.
\<close>

definition apartImage :: "ImageCircle \<Rightarrow> ImageCircle \<Rightarrow> bool" where
  "apartImage a b \<longleftrightarrow>
     real_of_int (ImageCircle.Radius a + ImageCircle.Radius b) \<le>
     sqrt (real_of_int ((ImageCircle.X a - ImageCircle.X b)\<^sup>2 + (ImageCircle.Y a - ImageCircle.Y b)\<^sup>2))"

definition saneImage :: "ImageMapGenerator \<Rightarrow> bool" where
  "saneImage mg \<longleftrightarrow>
     0 \<le> ImageMapGenerator.Width mg * CellSize mg \<and> ImageMapGenerator.Width mg * CellSize mg \<le> 2 ^ 26 \<and>
     0 \<le> ImageMapGenerator.Height mg * CellSize mg \<and> ImageMapGenerator.Height mg * CellSize mg \<le> 2 ^ 26 \<and>
     radiusOK (SpawnRadius mg) \<and> radiusOK (BedroomRadius mg)"

text \<open>
  The invariant of \<^verbatim>\<open>tryPlace\<close>: every circle lies within \<open>2^26\<close> pixels, and the
  circles are pairwise apart.
\<close>

definition tidy :: "ImageCircle \<Rightarrow> bool" where
  "tidy c \<longleftrightarrow>
     0 \<le> ImageCircle.Radius c \<and>
     ImageCircle.Radius c \<le> ImageCircle.X c \<and> ImageCircle.X c + ImageCircle.Radius c < 2 ^ 26 \<and>
     ImageCircle.Radius c \<le> ImageCircle.Y c \<and> ImageCircle.Y c + ImageCircle.Radius c < 2 ^ 26"

definition invImage :: "ImageCircle list \<Rightarrow> bool" where
  "invImage cs \<longleftrightarrow> (\<forall>c\<in>set cs. tidy c) \<and> sorted_wrt apartImage cs"

lemma apartImage_sym: "apartImage a b \<Longrightarrow> apartImage b a"
  by (simp add: apartImage_def power2_commute add.commute)

lemma intersects_exact:
  assumes "tidy a" "tidy b"
  shows "intersects a b \<longleftrightarrow> \<not> apartImage a b"
proof -
  define dx where "dx = ImageCircle.X a - ImageCircle.X b"
  define dy where "dy = ImageCircle.Y a - ImageCircle.Y b"
  have ra: "0 \<le> ImageCircle.Radius a" "ImageCircle.Radius a < 2 ^ 25"
           "0 \<le> ImageCircle.Radius b" "ImageCircle.Radius b < 2 ^ 25"
    using assms by (auto simp: tidy_def)
  have dxr: "\<bar>dx\<bar> \<le> 2 ^ 26 - 1" "\<bar>dy\<bar> \<le> 2 ^ 26 - 1"
    using assms by (auto simp: tidy_def dx_def dy_def)
  have sx: "sub64 (ImageCircle.X a) (ImageCircle.X b) = dx" "sub64 (ImageCircle.Y a) (ImageCircle.Y b) = dy"
    using dxr by (auto simp: sub64_def dx_def dy_def wrap64_id)
  have p2: "dx\<^sup>2 \<le> (2 ^ 26 - 1)\<^sup>2" "dy\<^sup>2 \<le> (2 ^ 26 - 1)\<^sup>2"
    by (rule power2_le_iff_abs_le[THEN iffD2], simp, rule dxr)+
  have sq: "dx * dx < 2 ^ 52" "dy * dy < 2 ^ 52"
    using p2 by (simp_all add: power2_eq_square)
  have lo: "- (2 ^ 63) \<le> dx * dx" "- (2 ^ 63) \<le> dy * dy" "- (2 ^ 63) \<le> dx * dx + dy * dy"
    by (rule order_trans[of _ 0], simp, simp)+
  have m: "mul64 dx dx = dx * dx" "mul64 dy dy = dy * dy"
    using sq lo by (auto simp: mul64_def wrap64_id)
  have d2: "add64 (dx * dx) (dy * dy) = dx\<^sup>2 + dy\<^sup>2"
    using sq lo by (simp add: add64_def wrap64_id power2_eq_square)
  have rs: "add64 (ImageCircle.Radius a) (ImageCircle.Radius b) = ImageCircle.Radius a + ImageCircle.Radius b"
    using ra by (simp add: add64_def wrap64_id)
  have nn: "0 \<le> dx\<^sup>2 + dy\<^sup>2" by simp
  have d53: "dx\<^sup>2 + dy\<^sup>2 \<le> 2 ^ 53" using sq by (simp add: power2_eq_square)
  have s26: "\<bar>ImageCircle.Radius a + ImageCircle.Radius b\<bar> \<le> 2 ^ 26" using ra by simp
  have o: "intersects a b \<longleftrightarrow>
      sqrt (real_of_int (dx\<^sup>2 + dy\<^sup>2)) < real_of_int (ImageCircle.Radius a + ImageCircle.Radius b)"
    using nn rounded_sqrt_less[OF nn d53 s26] by (simp only: intersects_def Let_def sx m d2 rs) simp
  have p: "apartImage a b \<longleftrightarrow>
      real_of_int (ImageCircle.Radius a + ImageCircle.Radius b) \<le> sqrt (real_of_int (dx\<^sup>2 + dy\<^sup>2))"
    by (simp add: apartImage_def dx_def dy_def)
  show ?thesis unfolding o p by (simp add: not_le)
qed

lemma tryPlace_inv:
  assumes "saneImage mg" "radiusOK radius"
  shows "invImage circles \<Longrightarrow>
         tryPlace mg cnt radius isSpawn attempts circles rng = Inr (circles', rng') \<Longrightarrow>
         invImage circles'"
proof (induction n \<equiv> "nat (50000 - attempts)" arbitrary: attempts circles rng)
  case 0
  then have "\<not> attempts < 50000" by simp
  with "0.prems" show ?case by (simp add: tryPlace.simps)
next
  case (Suc n)
  have lt: "attempts < 50000" using Suc.hyps(2) by linarith
  note unf = tryPlace.simps[of mg cnt radius isSpawn attempts circles rng]
  show ?case
  proof (cases "int (length circles) < cnt")
    case False
    with Suc.prems show ?thesis by (simp add: unf)
  next
    case True
    have r: "0 \<le> radius" "radius < 2 ^ 62" using assms(2) by (auto simp: radiusOK_def)
    have wc: "0 \<le> ImageMapGenerator.Width mg * CellSize mg" "ImageMapGenerator.Width mg * CellSize mg \<le> 2 ^ 26"
             "0 \<le> ImageMapGenerator.Height mg * CellSize mg" "ImageMapGenerator.Height mg * CellSize mg \<le> 2 ^ 26"
      using assms(1) by (auto simp: saneImage_def)
    have m2: "mul64 2 radius = 2 * radius" using r by (simp add: mul64_def wrap64_id)
    have mw: "mul64 (ImageMapGenerator.Width mg) (CellSize mg) = ImageMapGenerator.Width mg * CellSize mg"
             "mul64 (ImageMapGenerator.Height mg) (CellSize mg) = ImageMapGenerator.Height mg * CellSize mg"
      using wc by (auto simp: mul64_def wrap64_id)
    have sw: "sub64 (ImageMapGenerator.Width mg * CellSize mg) (2 * radius) = ImageMapGenerator.Width mg * CellSize mg - 2 * radius"
             "sub64 (ImageMapGenerator.Height mg * CellSize mg) (2 * radius) = ImageMapGenerator.Height mg * CellSize mg - 2 * radius"
      using wc r by (auto simp: sub64_def wrap64_id)
    from True lt Suc.prems(2) obtain a rng1 b rng2 where
      a: "Intn (ImageMapGenerator.Width mg * CellSize mg - 2 * radius) rng = Inr (a, rng1)"
      and b: "Intn (ImageMapGenerator.Height mg * CellSize mg - 2 * radius) rng1 = Inr (b, rng2)"
      and rest: "tryPlace mg cnt radius isSpawn (attempts + 1)
                    (if list_all (\<lambda>ex. \<not> intersects
                          \<lparr>ImageCircle.X = add64 a radius, ImageCircle.Y = add64 b radius,
                           ImageCircle.Radius = radius, IsSpawn = isSpawn\<rparr> ex) circles
                     then circles @ [\<lparr>ImageCircle.X = add64 a radius, ImageCircle.Y = add64 b radius,
                                      ImageCircle.Radius = radius, IsSpawn = isSpawn\<rparr>]
                     else circles) rng2 = Inr (circles', rng')"
      by (auto simp: unf m2 mw sw split: sum.splits)
    from a have ar: "0 \<le> a" "a < ImageMapGenerator.Width mg * CellSize mg - 2 * radius"
      by (auto simp: Intn_def split: if_splits prod.splits)
    from b have br: "0 \<le> b" "b < ImageMapGenerator.Height mg * CellSize mg - 2 * radius"
      by (auto simp: Intn_def split: if_splits prod.splits)
    have xy: "add64 a radius = a + radius" "add64 b radius = b + radius"
      using ar br r wc by (auto simp: add64_def wrap64_id)
    let ?c = "\<lparr>ImageCircle.X = a + radius, ImageCircle.Y = b + radius,
               ImageCircle.Radius = radius, IsSpawn = isSpawn\<rparr>"
    have t: "tidy ?c" using ar br r wc by (simp add: tidy_def)
    let ?next = "if list_all (\<lambda>ex. \<not> intersects ?c ex) circles then circles @ [?c] else circles"
    have "invImage ?next"
    proof (cases "list_all (\<lambda>ex. \<not> intersects ?c ex) circles")
      case False
      then show ?thesis using Suc.prems(1) by simp
    next
      case True
      have "\<forall>ex\<in>set circles. apartImage ex ?c"
      proof
        fix ex assume ex: "ex \<in> set circles"
        then have "\<not> intersects ?c ex" using True by (simp add: list_all_iff)
        moreover have "tidy ex" using Suc.prems(1) ex by (simp add: invImage_def)
        ultimately have "apartImage ?c ex" using intersects_exact[OF t] by blast
        then show "apartImage ex ?c" by (rule apartImage_sym)
      qed
      then show ?thesis using True Suc.prems(1) t by (auto simp: invImage_def sorted_wrt_append)
    qed
    moreover have "n = nat (50000 - (attempts + 1))" using Suc.hyps(2) by linarith
    ultimately show ?thesis using Suc.hyps(1) rest unfolding xy by blast
  qed
qed

lemma generateCircles_inv:
  assumes "saneImage mg" "generateCircles mg rng = Inr (circles, rng')"
  shows "invImage circles"
proof -
  from assms(2) obtain c1 rng1 where
    1: "tryPlace mg (SpawnCount mg) (SpawnRadius mg) True 0 [] rng = Inr (c1, rng1)"
    and 2: "tryPlace mg (add64 (SpawnCount mg) (BedroomCount mg)) (BedroomRadius mg) False 0 c1 rng1
             = Inr (circles, rng')"
    by (auto simp: generateCircles_def split: sum.splits if_splits)
  have "invImage []" by (simp add: invImage_def)
  then have "invImage c1" using tryPlace_inv[OF assms(1) _ _ 1] assms(1) by (simp add: saneImage_def)
  then show ?thesis using tryPlace_inv[OF assms(1) _ _ 2] assms(1) by (simp add: saneImage_def)
qed

lemma intersects_int:
  assumes "add64 (mul64 (sub64 (ImageCircle.X c1) (ImageCircle.X c2)) (sub64 (ImageCircle.X c1) (ImageCircle.X c2)))
                 (mul64 (sub64 (ImageCircle.Y c1) (ImageCircle.Y c2)) (sub64 (ImageCircle.Y c1) (ImageCircle.Y c2))) = d2"
    and "add64 (ImageCircle.Radius c1) (ImageCircle.Radius c2) = rs"
    and "0 \<le> d2" "d2 \<le> 2 ^ 53" "\<bar>rs\<bar> \<le> 2 ^ 26"
  shows "intersects c1 c2 \<longleftrightarrow> 0 < rs \<and> d2 < rs * rs"
  using assms(3) rounded_sqrt_less[OF assms(3,4,5)] sqrt_less_of_int[OF assms(3), of rs]
  by (simp only: intersects_def Let_def assms(1,2)) simp

lemma generateCircles_example:
  "generateCircles \<lparr>ImageMapGenerator.Width = 1, ImageMapGenerator.Height = 1, SpawnCount = 1,
       BedroomCount = 1, SpawnRadius = 10, BedroomRadius = 10, ImageMapGenerator.MaxGap = 1,
       CellSize = 100\<rparr> [0, 0, 50, 50] =
   Inr ([\<lparr>ImageCircle.X = 10, ImageCircle.Y = 10, ImageCircle.Radius = 10, IsSpawn = True\<rparr>,
         \<lparr>ImageCircle.X = 60, ImageCircle.Y = 60, ImageCircle.Radius = 10, IsSpawn = False\<rparr>], [])"
proof -
  let ?mg = "\<lparr>ImageMapGenerator.Width = 1, ImageMapGenerator.Height = 1, SpawnCount = 1,
       BedroomCount = 1, SpawnRadius = 10, BedroomRadius = 10, ImageMapGenerator.MaxGap = 1,
       CellSize = 100\<rparr>"
  let ?c1 = "\<lparr>ImageCircle.X = 10, ImageCircle.Y = 10, ImageCircle.Radius = 10, IsSpawn = True\<rparr>"
  let ?c2 = "\<lparr>ImageCircle.X = 60, ImageCircle.Y = 60, ImageCircle.Radius = 10, IsSpawn = False\<rparr>"
  have t1: "tryPlace ?mg 1 10 True 1 [?c1] [50, 50] = Inr ([?c1], [50, 50])"
    by (subst tryPlace.simps) simp
  have t0: "tryPlace ?mg 1 10 True 0 [] [0, 0, 50, 50] = Inr ([?c1], [50, 50])"
    by (subst tryPlace.simps) (simp add: Intn_def arith64 t1)
  have ni: "\<not> intersects ?c2 ?c1"
    by (subst intersects_int[where ?d2.0 = 5000 and rs = 20]) (simp_all add: arith64)
  have u1: "tryPlace ?mg 2 10 False 1 [?c1, ?c2] [] = Inr ([?c1, ?c2], [])"
    by (subst tryPlace.simps) simp
  have u0: "tryPlace ?mg 2 10 False 0 [?c1] [50, 50] = Inr ([?c1, ?c2], [])"
    by (subst tryPlace.simps) (simp add: Intn_def arith64 ni u1)
  show ?thesis
    by (simp add: generateCircles_def t0 add64_def wrap64_def u0)
qed

text \<open>
  Beyond that range the rounding decides otherwise.  On an image of 300 000 000
  pixels each way (width and height 3 000 000, cell size 100) with the radii \<open>2^26\<close>
  and \<open>2^26 + 1\<close>, the draws 0, 0, 134217727 and 16383 put the centres at a squared
  distance of \<open>(2^27 + 1)^2 - 1\<close>; its square root is rounded up to \<open>2^27 + 1\<close>, the
  sum of the radii, the test \<^verbatim>\<open>distance < sum\<close> fails, and \<^verbatim>\<open>generateCircles\<close> returns
  two circles that are not apart.
\<close>

lemma sqrt_rounded_up:
  "round64 (sqrt (real_of_int 18014398777917440)) = real_of_int 134217729"
proof -
  let ?D = "18014398777917440 :: int"
  have up: "sqrt (real_of_int ?D) < real_of_int 134217729"
    by (subst sqrt_less_of_int) simp_all
  have "(134217729 - 1 / 67108864 :: real)\<^sup>2 < real_of_int ?D"
    by (simp add: power2_eq_square)
  then have lo: "134217729 - 1 / 67108864 < sqrt (real_of_int ?D)"
    by (rule real_less_rsqrt)
  have "round64 (sqrt (real_of_int ?D)) = real_of_int 4503599660924928 * 2 powi (- 25)"
  proof (rule round64_near)
    show "- 1074 \<le> (- 25 :: int)" by simp
    show "2 ^ 52 * 2 powi (- 25) \<le> \<bar>sqrt (real_of_int ?D)\<bar>" using lo by simp
    show "\<bar>sqrt (real_of_int ?D)\<bar> < 2 ^ 53 * 2 powi (- 25)" using up by simp
    show "\<bar>sqrt (real_of_int ?D) - real_of_int 4503599660924928 * 2 powi (- 25)\<bar> < 2 powi (- 25) / 2"
      using lo up by simp
  qed
  then show ?thesis by simp
qed
lemma rounded_distance_hides_overlap:
  "generateCircles \<lparr>ImageMapGenerator.Width = 3000000, ImageMapGenerator.Height = 3000000, SpawnCount = 1,
       BedroomCount = 1, SpawnRadius = 67108864, BedroomRadius = 67108865, ImageMapGenerator.MaxGap = 1,
       CellSize = 100\<rparr> [0, 0, 134217727, 16383] =
   Inr ([\<lparr>ImageCircle.X = 67108864, ImageCircle.Y = 67108864, ImageCircle.Radius = 67108864, IsSpawn = True\<rparr>,
         \<lparr>ImageCircle.X = 201326592, ImageCircle.Y = 67125248, ImageCircle.Radius = 67108865, IsSpawn = False\<rparr>], []) \<and>
   \<not> apartImage
       \<lparr>ImageCircle.X = 67108864, ImageCircle.Y = 67108864, ImageCircle.Radius = 67108864, IsSpawn = True\<rparr>
       \<lparr>ImageCircle.X = 201326592, ImageCircle.Y = 67125248, ImageCircle.Radius = 67108865, IsSpawn = False\<rparr>"
proof -
  let ?mg = "\<lparr>ImageMapGenerator.Width = 3000000, ImageMapGenerator.Height = 3000000, SpawnCount = 1,
       BedroomCount = 1, SpawnRadius = 67108864, BedroomRadius = 67108865, ImageMapGenerator.MaxGap = 1,
       CellSize = 100\<rparr>"
  let ?c1 = "\<lparr>ImageCircle.X = 67108864, ImageCircle.Y = 67108864, ImageCircle.Radius = 67108864, IsSpawn = True\<rparr>"
  let ?c2 = "\<lparr>ImageCircle.X = 201326592, ImageCircle.Y = 67125248, ImageCircle.Radius = 67108865, IsSpawn = False\<rparr>"
  have t1: "tryPlace ?mg 1 67108864 True 1 [?c1] [134217727, 16383] = Inr ([?c1], [134217727, 16383])"
    by (subst tryPlace.simps) simp
  have t0: "tryPlace ?mg 1 67108864 True 0 [] [0, 0, 134217727, 16383] = Inr ([?c1], [134217727, 16383])"
    by (subst tryPlace.simps) (simp add: Intn_def arith64 t1)
  have d: "round64 18014398777917440 = 18014398777917440"
    using round64_exact[of 67108865 28] by simp
  have s: "round64 134217729 = 134217729"
    using round64_of_int[of 134217729] by simp
  have r: "round64 (sqrt 18014398777917440) = 134217729"
    using sqrt_rounded_up by simp
  have ni: "\<not> intersects ?c2 ?c1"
    by (simp add: intersects_def Let_def arith64 d s r)
  have u1: "tryPlace ?mg 2 67108865 False 1 [?c1, ?c2] [] = Inr ([?c1, ?c2], [])"
    by (subst tryPlace.simps) simp
  have u0: "tryPlace ?mg 2 67108865 False 0 [?c1] [134217727, 16383] = Inr ([?c1, ?c2], [])"
    by (subst tryPlace.simps) (simp add: Intn_def arith64 ni u1)
  have g: "generateCircles ?mg [0, 0, 134217727, 16383] = Inr ([?c1, ?c2], [])"
    by (simp add: generateCircles_def t0 add64_def wrap64_def u0)
  have "sqrt (real_of_int 18014398777917440) < real_of_int 134217729"
    by (subst sqrt_less_of_int) simp_all
  then have a: "\<not> apartImage ?c1 ?c2"
    by (simp add: apartImage_def)
  show ?thesis using g a by simp
qed

lemma nearbyLoop_no_room:
  assumes "sub64 (Config.Width (config g)) r \<le> r"
  shows "nearbyLoop g base r attempts [] = uniformPosition g r []"
proof (induction n \<equiv> "nat (30 - attempts)" arbitrary: attempts)
  case 0
  then have "\<not> attempts < 30" by simp
  then show ?case by (subst nearbyLoop.simps) simp
next
  case (Suc n)
  have lt: "attempts < 30" using Suc.hyps(2) by linarith
  have no: "\<not> (r \<le> x \<and> x < sub64 (Config.Width (config g)) r \<and> P)" for x P
    using assms by linarith
  have "nearbyLoop g base r attempts [] = nearbyLoop g base r (attempts + 1) []"
    by (subst nearbyLoop.simps) (simp add: lt Float64_def Let_def no)
  moreover have "n = nat (30 - (attempts + 1))" using Suc.hyps(2) by linarith
  ultimately show ?case using Suc.hyps(1) by simp
qed

section \<open>Non-overlap\<close>

text \<open>
  C4, as the code has it.  For a sane configuration, any two circles at different
  positions of the slice returned after a successful \<^verbatim>\<open>Generate\<close> are apart; and
  for an image generator whose pixel dimensions (width and height times the cell
  size) are at most \<open>2^26\<close> and whose radii are non-negative and below \<open>2^62\<close>, so
  are any two circles returned by a successful \<^verbatim>\<open>generateCircles\<close>.
\<close>

theorem circles_do_not_overlap:
  "(saneConfig cfg \<and> Generate (NewMapGenerator cfg) rng = Inr (g, rng') \<longrightarrow>
      (\<forall>i<length (getAllCircles g). \<forall>j<length (getAllCircles g).
          i \<noteq> j \<longrightarrow> apart (getAllCircles g ! i) (getAllCircles g ! j))) \<and>
   (saneImage mg \<and> generateCircles mg rng2 = Inr (circles, rng2') \<longrightarrow>
      (\<forall>i<length circles. \<forall>j<length circles.
          i \<noteq> j \<longrightarrow> apartImage (circles ! i) (circles ! j)))"
proof (intro conjI impI)
  assume "saneConfig cfg \<and> Generate (NewMapGenerator cfg) rng = Inr (g, rng')"
  then show "\<forall>i<length (getAllCircles g). \<forall>j<length (getAllCircles g).
          i \<noteq> j \<longrightarrow> apart (getAllCircles g ! i) (getAllCircles g ! j)"
    using Generate_apart by blast
next
  assume a: "saneImage mg \<and> generateCircles mg rng2 = Inr (circles, rng2')"
  then have s: "sorted_wrt apartImage circles"
    using generateCircles_inv[of mg rng2 circles rng2'] by (simp add: invImage_def)
  show "\<forall>i<length circles. \<forall>j<length circles. i \<noteq> j \<longrightarrow> apartImage (circles ! i) (circles ! j)"
  proof (intro allI impI)
    fix i j assume ij: "i < length circles" "j < length circles" "i \<noteq> j"
    show "apartImage (circles ! i) (circles ! j)"
    proof (cases "i < j")
      case True
      then show ?thesis using s ij by (simp add: sorted_wrt_iff_nth_less)
    next
      case False
      then have "j < i" using ij by simp
      then have "apartImage (circles ! j) (circles ! i)"
        using s ij by (simp add: sorted_wrt_iff_nth_less)
      then show ?thesis by (rule apartImage_sym)
    qed
  qed
qed

theorem circles_do_not_overlap_witness:
  "saneConfig \<lparr>Config.Width = 10, Config.Height = 10, Spawns = 1, Bedrooms = 1,
       SpawnR = 2, BedroomR = 1, Config.MaxGap = 1\<rparr> \<and>
   Generate (NewMapGenerator \<lparr>Config.Width = 10, Config.Height = 10, Spawns = 1, Bedrooms = 1,
       SpawnR = 2, BedroomR = 1, Config.MaxGap = 1\<rparr>) [] =
   Inr (\<lparr>config = \<lparr>Config.Width = 10, Config.Height = 10, Spawns = 1, Bedrooms = 1,
       SpawnR = 2, BedroomR = 1, Config.MaxGap = 1\<rparr>,
         spawns = [\<lparr>Circle.X = 5, Circle.Y = 5, Circle.Radius = 2, Type = ''''\<rparr>],
         bedrooms = [\<lparr>Circle.X = 8, Circle.Y = 5, Circle.Radius = 1, Type = ''''\<rparr>]\<rparr>, []) \<and>
   apart \<lparr>Circle.X = 5, Circle.Y = 5, Circle.Radius = 2, Type = ''spawn''\<rparr>
         \<lparr>Circle.X = 8, Circle.Y = 5, Circle.Radius = 1, Type = ''bedroom''\<rparr> \<and>
   saneImage \<lparr>ImageMapGenerator.Width = 1, ImageMapGenerator.Height = 1, SpawnCount = 1,
       BedroomCount = 1, SpawnRadius = 10, BedroomRadius = 10, ImageMapGenerator.MaxGap = 1,
       CellSize = 100\<rparr> \<and>
   generateCircles \<lparr>ImageMapGenerator.Width = 1, ImageMapGenerator.Height = 1, SpawnCount = 1,
       BedroomCount = 1, SpawnRadius = 10, BedroomRadius = 10, ImageMapGenerator.MaxGap = 1,
       CellSize = 100\<rparr> [0, 0, 50, 50] =
   Inr ([\<lparr>ImageCircle.X = 10, ImageCircle.Y = 10, ImageCircle.Radius = 10, IsSpawn = True\<rparr>,
         \<lparr>ImageCircle.X = 60, ImageCircle.Y = 60, ImageCircle.Radius = 10, IsSpawn = False\<rparr>], []) \<and>
   apartImage \<lparr>ImageCircle.X = 10, ImageCircle.Y = 10, ImageCircle.Radius = 10, IsSpawn = True\<rparr>
              \<lparr>ImageCircle.X = 60, ImageCircle.Y = 60, ImageCircle.Radius = 10, IsSpawn = False\<rparr>"
proof -
  let ?cfg = "\<lparr>Config.Width = 10, Config.Height = 10, Spawns = 1, Bedrooms = 1,
       SpawnR = 2, BedroomR = 1, Config.MaxGap = 1\<rparr>"
  let ?g = "\<lparr>config = ?cfg,
         spawns = [\<lparr>Circle.X = 5, Circle.Y = 5, Circle.Radius = 2, Type = ''''\<rparr>],
         bedrooms = [\<lparr>Circle.X = 8, Circle.Y = 5, Circle.Radius = 1, Type = ''''\<rparr>]\<rparr>"
  let ?mg = "\<lparr>ImageMapGenerator.Width = 1, ImageMapGenerator.Height = 1, SpawnCount = 1,
       BedroomCount = 1, SpawnRadius = 10, BedroomRadius = 10, ImageMapGenerator.MaxGap = 1,
       CellSize = 100\<rparr>"
  let ?cs = "[\<lparr>ImageCircle.X = 10, ImageCircle.Y = 10, ImageCircle.Radius = 10, IsSpawn = True\<rparr>,
         \<lparr>ImageCircle.X = 60, ImageCircle.Y = 60, ImageCircle.Radius = 10, IsSpawn = False\<rparr>]"
  have h1: "saneConfig ?cfg" by (simp add: saneConfig_def validateConfig_def radiusOK_def)
  have h2: "Generate (NewMapGenerator ?cfg) [] = Inr (?g, [])" by (rule Generate_example)
  have h3: "saneImage ?mg" by (simp add: saneImage_def radiusOK_def)
  have h4: "generateCircles ?mg [0, 0, 50, 50] = Inr (?cs, [])" by (rule generateCircles_example)
  note t = circles_do_not_overlap[of ?cfg "[]" ?g "[]" ?mg "[0, 0, 50, 50]" ?cs "[]"]
  have a: "\<forall>i<length (getAllCircles ?g). \<forall>j<length (getAllCircles ?g).
          i \<noteq> j \<longrightarrow> apart (getAllCircles ?g ! i) (getAllCircles ?g ! j)"
    using t h1 h2 by blast
  have b: "\<forall>i<length ?cs. \<forall>j<length ?cs. i \<noteq> j \<longrightarrow> apartImage (?cs ! i) (?cs ! j)"
    using t h3 h4 by blast
  have ga: "getAllCircles ?g = [\<lparr>Circle.X = 5, Circle.Y = 5, Circle.Radius = 2, Type = ''spawn''\<rparr>,
         \<lparr>Circle.X = 8, Circle.Y = 5, Circle.Radius = 1, Type = ''bedroom''\<rparr>]"
    by (simp add: getAllCircles_def)
  have a': "apart (getAllCircles ?g ! 0) (getAllCircles ?g ! 1)"
    using a[rule_format, of 0 1] by (simp add: ga)
  have b': "apartImage (?cs ! 0) (?cs ! 1)"
    using b[rule_format, of 0 1] by simp
  show ?thesis using h1 h2 h3 h4 a' b' by (simp add: ga)
qed

text \<open>
  The claim as written, for every successful generation, fails when the radius is
  so large that twice the radius wraps around: with a spawn radius of \<open>2^63 - 1\<close>
  the bounds test and the overlap test both compare against the wrapped value
  \<open>-2\<close>, and \<^verbatim>\<open>Generate\<close> returns two circles with the same centre.  (For the
  image variant it fails on a large image through the rounding of the square
  root, as \<open>rounded_distance_hides_overlap\<close> shows.)
\<close>

theorem huge_radius_circles_coincide:
  "validateConfig \<lparr>Config.Width = 100, Config.Height = 100, Spawns = 2, Bedrooms = 0,
       SpawnR = 9223372036854775807, BedroomR = 1, Config.MaxGap = 1\<rparr> = None \<and>
   Generate (NewMapGenerator \<lparr>Config.Width = 100, Config.Height = 100, Spawns = 2, Bedrooms = 0,
       SpawnR = 9223372036854775807, BedroomR = 1, Config.MaxGap = 1\<rparr>) [] =
     Inr (\<lparr>config = \<lparr>Config.Width = 100, Config.Height = 100, Spawns = 2, Bedrooms = 0,
                SpawnR = 9223372036854775807, BedroomR = 1, Config.MaxGap = 1\<rparr>,
           spawns = [\<lparr>Circle.X = 9223372036854775807, Circle.Y = 9223372036854775807, Circle.Radius = 9223372036854775807, Type = ''''\<rparr>,
                     \<lparr>Circle.X = 9223372036854775807, Circle.Y = 9223372036854775807, Circle.Radius = 9223372036854775807, Type = ''''\<rparr>],
           bedrooms = []\<rparr>, []) \<and>
   \<not> apart \<lparr>Circle.X = 9223372036854775807, Circle.Y = 9223372036854775807, Circle.Radius = 9223372036854775807, Type = ''spawn''\<rparr>
           \<lparr>Circle.X = 9223372036854775807, Circle.Y = 9223372036854775807, Circle.Radius = 9223372036854775807, Type = ''spawn''\<rparr>"
proof -
  let ?cfg = "\<lparr>Config.Width = 100, Config.Height = 100, Spawns = 2, Bedrooms = 0,
       SpawnR = 9223372036854775807, BedroomR = 1, Config.MaxGap = 1\<rparr>"
  let ?c = "\<lparr>Circle.X = 9223372036854775807, Circle.Y = 9223372036854775807, Circle.Radius = 9223372036854775807, Type = ''''\<rparr>"
  let ?g0 = "\<lparr>config = ?cfg, spawns = [], bedrooms = []\<rparr>"
  let ?g1 = "\<lparr>config = ?cfg, spawns = [?c], bedrooms = []\<rparr>"
  let ?g2 = "\<lparr>config = ?cfg, spawns = [?c, ?c], bedrooms = []\<rparr>"
  have v: "validateConfig ?cfg = None" by (simp add: validateConfig_def)
  have c: "placeCenter (NewMapGenerator ?cfg) = ?g0"
    by (simp add: placeCenter_def NewMapGenerator_def canPlaceCircle_def getAllCircles_def Let_def
        arith64 signed_divide_int_def)
  have u: "uniformPosition g (9223372036854775807) [] = Inr ((9223372036854775807, 9223372036854775807), [])"
    if "config g = ?cfg" for g
    using that by (simp add: uniformPosition_def Intn_def arith64)
  have p0: "propose ?g0 (9223372036854775807) [] = Inr ((9223372036854775807, 9223372036854775807), [])"
    by (simp add: propose_def getAllCircles_def u)
  have cp0: "canPlaceCircle ?g0 ?c"
    by (simp add: canPlaceCircle_def getAllCircles_def arith64)
  have l0: "placeLoop True 0 ?g0 [] = Inr (True, ?g1, [])"
    by (subst placeLoop.simps) (simp add: radiusOf_def p0 candidate_def cp0 addCircle_def)
  have nb: "nearbyLoop ?g1 base (9223372036854775807) 0 [] = uniformPosition ?g1 (9223372036854775807) []" for base
    by (rule nearbyLoop_no_room) (simp add: arith64)
  have p1: "propose ?g1 (9223372036854775807) [] = Inr ((9223372036854775807, 9223372036854775807), [])"
    by (simp add: propose_def getAllCircles_def Intn_def generateNearbyPosition_def nb u)
  have ov: "\<not> overlaps ?c \<lparr>Circle.X = 9223372036854775807, Circle.Y = 9223372036854775807, Circle.Radius = 9223372036854775807, Type = ''spawn''\<rparr>"
    by (subst overlaps_int[where ?d2.0 = 0 and rs = "- 2"]) (simp_all add: arith64)
  have cp1: "canPlaceCircle ?g1 ?c"
    by (simp add: canPlaceCircle_def getAllCircles_def ov arith64)
  have l1: "placeLoop True 0 ?g1 [] = Inr (True, ?g2, [])"
    by (subst placeLoop.simps) (simp add: radiusOf_def p1 candidate_def cp1 addCircle_def)
  have s2: "spawnLoop 2 ?g2 [] = Inr (?g2, [])"
    by (subst spawnLoop.simps) simp
  have s1: "spawnLoop 1 ?g1 [] = Inr (?g2, [])"
    by (subst spawnLoop.simps) (simp add: l1 s2)
  have s0: "spawnLoop 0 ?g0 [] = Inr (?g2, [])"
    by (subst spawnLoop.simps) (simp add: l0 s1)
  have b: "bedroomLoop 0 ?g2 [] = Inr (?g2, [])"
    by (subst bedroomLoop.simps) simp
  have g: "Generate (NewMapGenerator ?cfg) [] = Inr (?g2, [])"
    by (simp add: Generate_def c s0 b)
  have a: "\<not> apart \<lparr>Circle.X = 9223372036854775807, Circle.Y = 9223372036854775807, Circle.Radius = 9223372036854775807, Type = ''spawn''\<rparr>
           \<lparr>Circle.X = 9223372036854775807, Circle.Y = 9223372036854775807, Circle.Radius = 9223372036854775807, Type = ''spawn''\<rparr>"
    by (simp add: apart_def)
  show ?thesis using v g a by simp
qed

end
